theory Spec2Isabelle
  imports Complex_Main "HOL-Library.Sublist" "HOL-Library.Multiset"
begin

section \<open>JavaScript numbers\<close>

text \<open>
  A JavaScript number is an IEEE 754 binary64 value: a finite real that the format
  represents, one of the two infinities, or NaN. Every arithmetic operation computes
  the exact real result and rounds it to the nearest representable value, ties to the
  even significand; a result of magnitude \<open>2 ^ 1024\<close> or more overflows to an
  infinity. The sign of zero is not modelled: \<open>===\<close>, \<open><\<close> and \<open>>\<close> do not
  see it; only a division by zero would, and \<open>fdiv\<close> takes a zero divisor as
  positive.
\<close>

datatype jsnum = Fin real | PInf | NInf | NaN

type_synonym rounding = "real \<Rightarrow> jsnum"

definition expo :: "real \<Rightarrow> int" where
  \<comment> \<open>the binary exponent of a nonzero real: \<open>2 powi (expo x) \<le> \<bar>x\<bar> < 2 powi (expo x + 1)\<close>\<close>
  "expo x = \<lfloor>log 2 \<bar>x\<bar>\<rfloor>"

definition ulp :: "real \<Rightarrow> real" where
  \<comment> \<open>the spacing of binary64 values around \<open>x\<close>: 52 fraction bits, and the
      subnormal numbers share the exponent -1022\<close>
  "ulp x = 2 powi (max (expo x) (- 1022) - 52)"

definition round_he :: "real \<Rightarrow> int" where
  \<comment> \<open>the nearest integer, a tie going to the even one\<close>
  "round_he y =
     (let n = \<lfloor>y\<rfloor>; d = y - of_int n
      in if d < 1 / 2 then n else if 1 / 2 < d then n + 1
         else if even n then n else n + 1)"

definition binary64 :: rounding where
  "binary64 x =
     (if x = 0 then Fin 0
      else let r = of_int (round_he (x / ulp x)) * ulp x
           in if 2 ^ 1024 \<le> r then PInf
              else if r \<le> - (2 ^ 1024) then NInf
              else Fin r)"

fun fneg :: "jsnum \<Rightarrow> jsnum" where
  "fneg (Fin x) = Fin (- x)"
| "fneg PInf = NInf"
| "fneg NInf = PInf"
| "fneg NaN = NaN"

fun fadd :: "rounding \<Rightarrow> jsnum \<Rightarrow> jsnum \<Rightarrow> jsnum" where
  "fadd rd (Fin x) (Fin y) = rd (x + y)"
| "fadd rd NaN y = NaN"
| "fadd rd x NaN = NaN"
| "fadd rd PInf NInf = NaN"
| "fadd rd NInf PInf = NaN"
| "fadd rd PInf y = PInf"
| "fadd rd NInf y = NInf"
| "fadd rd x PInf = PInf"
| "fadd rd x NInf = NInf"

definition fsub :: "rounding \<Rightarrow> jsnum \<Rightarrow> jsnum \<Rightarrow> jsnum" where
  "fsub rd x y = fadd rd x (fneg y)"

definition signed_inf :: "real \<Rightarrow> jsnum" where
  \<comment> \<open>an infinity times or over a finite value of the given sign\<close>
  "signed_inf x = (if x = 0 then NaN else if 0 < x then PInf else NInf)"

fun fmul :: "rounding \<Rightarrow> jsnum \<Rightarrow> jsnum \<Rightarrow> jsnum" where
  "fmul rd (Fin x) (Fin y) = rd (x * y)"
| "fmul rd NaN y = NaN"
| "fmul rd x NaN = NaN"
| "fmul rd (Fin x) PInf = signed_inf x"
| "fmul rd (Fin x) NInf = signed_inf (- x)"
| "fmul rd PInf (Fin y) = signed_inf y"
| "fmul rd NInf (Fin y) = signed_inf (- y)"
| "fmul rd PInf PInf = PInf"
| "fmul rd NInf NInf = PInf"
| "fmul rd PInf NInf = NInf"
| "fmul rd NInf PInf = NInf"

fun fdiv :: "rounding \<Rightarrow> jsnum \<Rightarrow> jsnum \<Rightarrow> jsnum" where
  "fdiv rd (Fin x) (Fin y) = (if y = 0 then signed_inf x else rd (x / y))"
| "fdiv rd NaN y = NaN"
| "fdiv rd x NaN = NaN"
| "fdiv rd (Fin x) PInf = Fin 0"
| "fdiv rd (Fin x) NInf = Fin 0"
| "fdiv rd PInf (Fin y) = (if 0 \<le> y then PInf else NInf)"
| "fdiv rd NInf (Fin y) = (if 0 \<le> y then NInf else PInf)"
| "fdiv rd x y = NaN"

fun fsqrt :: "rounding \<Rightarrow> jsnum \<Rightarrow> jsnum" where
  "fsqrt rd (Fin x) = (if x < 0 then NaN else rd (sqrt x))"
| "fsqrt rd PInf = PInf"
| "fsqrt rd NInf = NaN"
| "fsqrt rd NaN = NaN"

fun fless :: "jsnum \<Rightarrow> jsnum \<Rightarrow> bool" where
  "fless (Fin x) (Fin y) = (x < y)"
| "fless NaN y = False"
| "fless x NaN = False"
| "fless x NInf = False"
| "fless PInf y = False"
| "fless NInf y = True"
| "fless x PInf = True"

definition fgreater :: "jsnum \<Rightarrow> jsnum \<Rightarrow> bool" where
  "fgreater x y = fless y x"

fun fgeq :: "jsnum \<Rightarrow> jsnum \<Rightarrow> bool" where
  \<comment> \<open>\<open>x >= y\<close>\<close>
  "fgeq x y = (fless y x \<or> (x = y \<and> x \<noteq> NaN))"

section \<open>Cosine similarity\<close>

text \<open>
  \<^verbatim>\<open>function dot(a, b) { let s = 0; for (let i = 0; i < a.length; i++) s += a[i] * b[i]; return s; }\<close>

  The loop runs over the indices of \<open>a\<close>. Reading \<open>b[i]\<close> beyond the end of \<open>b\<close>
  gives \<open>undefined\<close>, which the multiplication converts to NaN.
  The functions take the rounding of the arithmetic as a parameter; the program runs
  them with \<open>binary64\<close>.
\<close>

definition elem :: "jsnum list \<Rightarrow> nat \<Rightarrow> jsnum" where
  "elem b i = (if i < length b then b ! i else NaN)"

function dot_loop :: "rounding \<Rightarrow> jsnum list \<Rightarrow> jsnum list \<Rightarrow> nat \<Rightarrow> jsnum \<Rightarrow> jsnum" where
  "dot_loop rd a b i s =
     (if i < length a then dot_loop rd a b (i + 1) (fadd rd s (fmul rd (elem a i) (elem b i)))
      else s)"
  by pat_completeness auto
termination
  by (relation "measure (\<lambda>(rd, a, b, i, s). length a - i)") auto

definition dot_in :: "rounding \<Rightarrow> jsnum list \<Rightarrow> jsnum list \<Rightarrow> jsnum" where
  "dot_in rd a b = dot_loop rd a b 0 (Fin 0)"

definition norm_in :: "rounding \<Rightarrow> jsnum list \<Rightarrow> jsnum" where
  "norm_in rd a = fsqrt rd (dot_in rd a a)"

definition cosineSim_in :: "rounding \<Rightarrow> jsnum list \<Rightarrow> jsnum list \<Rightarrow> jsnum" where
  "cosineSim_in rd a b =
     (let na = norm_in rd a; nb = norm_in rd b
      in if na = Fin 0 \<or> nb = Fin 0 then Fin 0
         else fdiv rd (dot_in rd a b) (fmul rd na nb))"

definition dot :: "jsnum list \<Rightarrow> jsnum list \<Rightarrow> jsnum" where
  "dot = dot_in binary64"

definition norm_js :: "jsnum list \<Rightarrow> jsnum" where
  "norm_js = norm_in binary64"

definition cosineSim :: "jsnum list \<Rightarrow> jsnum list \<Rightarrow> jsnum" where
  "cosineSim = cosineSim_in binary64"

definition divisor :: "jsnum list \<Rightarrow> jsnum list \<Rightarrow> jsnum" where
  \<comment> \<open>the value \<open>na * nb\<close> that line 66 divides by\<close>
  "divisor a b = fmul binary64 (norm_js a) (norm_js b)"

definition divides :: "jsnum list \<Rightarrow> jsnum list \<Rightarrow> bool" where
  \<comment> \<open>whether \<open>cosineSim a b\<close> reaches the division of line 66\<close>
  "divides a b = (\<not> (norm_js a = Fin 0 \<or> norm_js b = Fin 0))"

section \<open>The similarity ranker\<close>

text \<open>
  A row of the table \<open>documents\<close>. The column \<open>embedding\<close> holds JSON text; the model
  keeps what \<open>JSON.parse\<close> makes of it: \<open>None\<close> when \<open>JSON.parse\<close> or
  \<open>cosineSim\<close> throws on it (malformed text, or \<open>null\<close>; the inner \<open>try\<close> then
  skips the row), the array of numbers otherwise, which is all the add operation ever
  stores. \<open>created_at\<close> is \<open>CURRENT_TIMESTAMP\<close>, a text of the form
  \<open>YYYY-MM-DD HH:MM:SS\<close> that orders as the count of seconds it denotes.
  A store is the list of its rows in rowid order.
\<close>

record row =
  row_id :: int
  row_title :: "string option"
  row_content :: string
  row_embedding :: "jsnum list option"
  created_at :: nat

record scored =
  s_id :: int
  s_title :: "string option"
  s_content :: string
  score :: jsnum

fun score_rows :: "jsnum list \<Rightarrow> row list \<Rightarrow> scored list" where
  "score_rows q [] = []"
| "score_rows q (r # rs) =
     (case row_embedding r of
        None \<Rightarrow> score_rows q rs
      | Some docEmb \<Rightarrow>
          \<lparr>s_id = row_id r, s_title = row_title r, s_content = row_content r,
           score = cosineSim q docEmb\<rparr> # score_rows q rs)"

text \<open>
  A stable sort by insertion: each element, from the last to the first, goes in front
  of the sorted rest and moves back past the elements that come strictly before it.
  When \<open>before\<close> is a consistent order this is the one stable sorted arrangement of
  the list, whatever the algorithm. The store uses it for \<open>ORDER BY\<close>.
\<close>

fun insert_sorted :: "('a \<Rightarrow> 'a \<Rightarrow> bool) \<Rightarrow> 'a \<Rightarrow> 'a list \<Rightarrow> 'a list" where
  "insert_sorted before x [] = [x]"
| "insert_sorted before x (y # ys) =
     (if before y x then y # insert_sorted before x ys else x # y # ys)"

fun stable_sort :: "('a \<Rightarrow> 'a \<Rightarrow> bool) \<Rightarrow> 'a list \<Rightarrow> 'a list" where
  "stable_sort before [] = []"
| "stable_sort before (x # xs) = insert_sorted before x (stable_sort before xs)"

text \<open>
  \<open>Array.prototype.sort\<close> with a comparison function: \<open>a\<close> goes before \<open>b\<close> when
  the function returns a negative number, and a NaN result counts as zero. When the
  function is a consistent order the result is the stable sorted arrangement. When it is
  not (a NaN score makes it so), the language leaves the order to the engine. V8 sorts an
  array of fewer than 64 elements in two steps: it takes the longest run at the start
  that is already ascending, or strictly descending and then reversed, and inserts the
  other elements one by one at the place a binary search finds. An array of 64 elements
  or more it cuts into such runs and merges them; that order is not modelled and is
  taken from a parameter, as far as it is a rearrangement of the array.
\<close>

fun run_extend :: "bool \<Rightarrow> ('a \<Rightarrow> 'a \<Rightarrow> bool) \<Rightarrow> 'a \<Rightarrow> 'a list \<Rightarrow> nat" where
  \<comment> \<open>how many further elements continue the run that ends in \<open>prev\<close>\<close>
  "run_extend desc before prev [] = 0"
| "run_extend desc before prev (c # cs) =
     (if before c prev = desc then Suc (run_extend desc before c cs) else 0)"

definition count_run :: "('a \<Rightarrow> 'a \<Rightarrow> bool) \<Rightarrow> 'a list \<Rightarrow> nat \<times> bool" where
  \<comment> \<open>the length of the first run, and whether it is descending\<close>
  "count_run before xs =
     (case xs of
        x0 # x1 # rest \<Rightarrow> (2 + run_extend (before x1 x0) before x1 rest, before x1 x0)
      | _ \<Rightarrow> (length xs, False))"

function bsearch :: "('a \<Rightarrow> 'a \<Rightarrow> bool) \<Rightarrow> 'a \<Rightarrow> 'a list \<Rightarrow> nat \<Rightarrow> nat \<Rightarrow> nat" where
  \<comment> \<open>called with \<open>right \<le> length xs\<close>, so that \<open>mid\<close> is an index of \<open>xs\<close>\<close>
  "bsearch before pivot xs left right =
     (if left < right
      then let mid = left + (right - left) div 2
           in if before pivot (xs ! mid) then bsearch before pivot xs left mid
              else bsearch before pivot xs (mid + 1) right
      else left)"
  by pat_completeness auto
termination
  by (relation "measure (\<lambda>(before, pivot, xs, left, right). right - left)") auto

fun binary_insertion :: "('a \<Rightarrow> 'a \<Rightarrow> bool) \<Rightarrow> 'a list \<Rightarrow> 'a list \<Rightarrow> 'a list" where
  "binary_insertion before front [] = front"
| "binary_insertion before front (pivot # rest) =
     (let left = bsearch before pivot front 0 (length front)
      in binary_insertion before (take left front @ pivot # drop left front) rest)"

definition short_sort :: "('a \<Rightarrow> 'a \<Rightarrow> bool) \<Rightarrow> 'a list \<Rightarrow> 'a list" where
  "short_sort before xs =
     (let (n, desc) = count_run before xs; run = take n xs
      in binary_insertion before (if desc then rev run else run) (drop n xs))"

definition compare_score :: "scored \<Rightarrow> scored \<Rightarrow> jsnum" where
  \<comment> \<open>\<open>(a, b) => b.score - a.score\<close>\<close>
  "compare_score a b = fsub binary64 (score b) (score a)"

definition sorts_before :: "scored \<Rightarrow> scored \<Rightarrow> bool" where
  "sorts_before a b = fless (compare_score a b) (Fin 0)"

type_synonym engine = "scored list \<Rightarrow> scored list"

definition rearranged :: "'a list \<Rightarrow> 'a list \<Rightarrow> 'a list" where
  "rearranged xs ys = (if mset ys = mset xs then ys else xs)"

definition array_sort :: "engine \<Rightarrow> scored list \<Rightarrow> scored list" where
  \<comment> \<open>\<open>scored.sort((a, b) => b.score - a.score)\<close>\<close>
  "array_sort long_sort xs =
     (if list_all (\<lambda>s. score s \<noteq> NaN) xs then stable_sort sorts_before xs
      else if length xs < 64 then short_sort sorts_before xs
      else rearranged xs (long_sort xs))"

definition threshold :: jsnum where
  \<comment> \<open>the literal \<open>0.65\<close>\<close>
  "threshold = binary64 (65 / 100)"

definition top_matches :: "engine \<Rightarrow> jsnum list \<Rightarrow> row list \<Rightarrow> scored list" where
  \<comment> \<open>\<open>scored.sort(...); scored.slice(0, 3).filter(s => s.score > 0.65)\<close>\<close>
  "top_matches long_sort q rows =
     filter (\<lambda>s. fgreater (score s) threshold)
       (take 3 (array_sort long_sort (score_rows q rows)))"

section \<open>JSON values and the services the handlers call\<close>

text \<open>
  A request body is parsed JSON. An object is the list of its properties, each name
  once. \<open>JUndefined\<close> is what reading a missing property gives.
\<close>

datatype json =
    JUndefined
  | JNull
  | JBool bool
  | JNum jsnum
  | JStr string
  | JArr "json list"
  | JObj "(string \<times> json) list"

fun truthy :: "json \<Rightarrow> bool" where
  "truthy JUndefined = False"
| "truthy JNull = False"
| "truthy (JBool b) = b"
| "truthy (JNum x) = (x \<noteq> Fin 0 \<and> x \<noteq> NaN)"
| "truthy (JStr s) = (s \<noteq> [])"
| "truthy (JArr xs) = True"
| "truthy (JObj kvs) = True"

fun isArray :: "json \<Rightarrow> bool" where
  "isArray (JArr xs) = True"
| "isArray v = False"

fun isString :: "json \<Rightarrow> bool" where
  "isString (JStr s) = True"
| "isString v = False"

datatype 'a outcome = Throws | Returns 'a

fun get_prop :: "json \<Rightarrow> string \<Rightarrow> json outcome" where
  \<comment> \<open>\<open>m.role\<close>, \<open>m.content\<close>: a TypeError on \<open>undefined\<close> and \<open>null\<close>, and
      \<open>undefined\<close> on a value without that property\<close>
  "get_prop JUndefined k = Throws"
| "get_prop JNull k = Throws"
| "get_prop (JObj kvs) k = Returns (case map_of kvs k of None \<Rightarrow> JUndefined | Some v \<Rightarrow> v)"
| "get_prop v k = Returns JUndefined"

text \<open>
  What a handler finds around it: whether \<open>OPENAI_API_KEY\<close> is set, the default
  model name, what each call of the remote services returns for its input (or that it
  throws), and whether statements on the store succeed. The record also carries the
  order the engine leaves in a long array under an inconsistent comparison, and the two
  number formats of the platform, \<open>toFixed(3)\<close> and the text the store makes of a
  number; no claim depends on them. A handler returns its response together with the
  list of the external calls it made, in order.
\<close>

record services =
  key_set :: bool
  MODEL :: string
  moderations_create :: "json \<Rightarrow> bool option outcome"
  embeddings_create :: "json \<Rightarrow> jsnum list outcome"
  completions_create :: "json \<Rightarrow> json list \<Rightarrow> string option outcome"
  db_ok :: bool
  long_sort :: engine
  toFixed3 :: "jsnum \<Rightarrow> string"
  number_text :: "jsnum \<Rightarrow> string"

datatype call =
    ModerationCall json
  | EmbeddingCall json
  | StoreRead
  | CompletionCall json "json list"

record summary =
  sum_id :: int
  sum_title :: "string option"
  snippet :: string
  sum_created_at :: nat

datatype response =
    Ok_reply string
  | Ok_added int
  | Ok_list "summary list"
  | Failure nat string

section \<open>The document endpoints\<close>

record doc_body =
  title :: json
  content :: json

fun bind_value :: "services \<Rightarrow> json \<Rightarrow> string option outcome" where
  \<comment> \<open>one bound parameter of the insert, as the column \<open>title\<close> stores it: the driver
      binds null and undefined as NULL, text and numbers (the column's text affinity stores a number as its
      text) and throws on any other value\<close>
  "bind_value sv JNull = Returns None"
| "bind_value sv JUndefined = Returns None"
| "bind_value sv (JStr s) = Returns (Some s)"
| "bind_value sv (JNum x) = Returns (Some (number_text sv x))"
| "bind_value sv v = Throws"

fun bind_title :: "services \<Rightarrow> json \<Rightarrow> string option outcome" where
  \<comment> \<open>\<open>title || null\<close> as the first argument of \<open>stmt.run\<close>: the driver spreads an
      array argument into the bound parameters, so that an array of one element binds
      that element and any other array misses the count of three parameters; an
      object names parameters the statement does not have, and the count is missed\<close>
  "bind_title sv (JArr [v]) = bind_value sv v"
| "bind_title sv (JArr vs) = Throws"
| "bind_title sv (JObj kvs) = Throws"
| "bind_title sv v = (if truthy v then bind_value sv v else Returns None)"

definition next_rowid :: "row list \<Rightarrow> int" where
  "next_rowid db = foldr max (map row_id db) 0 + 1"

definition add_doc :: "services \<Rightarrow> nat \<Rightarrow> row list \<Rightarrow> doc_body \<Rightarrow> response \<times> row list" where
  "add_doc sv now db body =
     (if \<not> truthy (content body) \<or> \<not> isString (content body)
      then (Failure 400 ''content is required'', db)
      else case content body of
        JStr text \<Rightarrow>
          (case embeddings_create sv (JStr text) of
             Throws \<Rightarrow> (Failure 500 ''failed to add document'', db)
           | Returns embedding \<Rightarrow>
               (case bind_title sv (title body) of
                  Throws \<Rightarrow> (Failure 500 ''failed to add document'', db)
                | Returns t \<Rightarrow>
                    if \<not> db_ok sv then (Failure 500 ''failed to add document'', db)
                    else (Ok_added (next_rowid db),
                          db @ [\<lparr>row_id = next_rowid db, row_title = t, row_content = text,
                                 row_embedding = Some embedding, created_at = now\<rparr>])))
      | _ \<Rightarrow> (Failure 400 ''content is required'', db))"

text \<open>
  The listing is ordered by \<open>created_at\<close> alone. The sorter of the store keeps rows
  of equal keys in the order of the scan, which is rowid order.
\<close>

definition newer :: "row \<Rightarrow> row \<Rightarrow> bool" where
  "newer r1 r2 = (created_at r2 < created_at r1)"

definition substr800 :: "string \<Rightarrow> string" where
  \<comment> \<open>\<open>substr(content,1,800)\<close>: the store reads a text up to its first NUL character
      and counts characters, each \<open>char\<close> of the model standing for one\<close>
  "substr800 s = take 800 (takeWhile (\<lambda>c. c \<noteq> CHR 0x00) s)"

definition summarise :: "row \<Rightarrow> summary" where
  \<comment> \<open>\<open>SELECT id, title, substr(content,1,800) as snippet, created_at\<close>\<close>
  "summarise r =
     \<lparr>sum_id = row_id r, sum_title = row_title r, snippet = substr800 (row_content r),
      sum_created_at = created_at r\<rparr>"

definition list_docs :: "services \<Rightarrow> row list \<Rightarrow> response" where
  \<comment> \<open>\<open>ORDER BY created_at DESC\<close>; rows with equal timestamps come in scan order\<close>
  "list_docs sv db =
     (if \<not> db_ok sv then Failure 500 ''failed to list documents''
      else Ok_list (map summarise (stable_sort newer db)))"

section \<open>The chat endpoint\<close>

record chat_body =
  messages :: json
  model :: json

fun find_user :: "json list \<Rightarrow> json outcome" where
  \<comment> \<open>\<open>.find(m => m.role === "user")\<close>\<close>
  "find_user [] = Returns JUndefined"
| "find_user (m # ms) =
     (case get_prop m ''role'' of
        Throws \<Rightarrow> Throws
      | Returns r \<Rightarrow> if r = JStr ''user'' then Returns m else find_user ms)"

definition last_content :: "json \<Rightarrow> json" where
  \<comment> \<open>\<open>lastUser?.content ?? ""\<close>\<close>
  "last_content lastUser =
     (case get_prop lastUser ''content'' of
        Throws \<Rightarrow> JStr []
      | Returns c \<Rightarrow> if c = JUndefined \<or> c = JNull then JStr [] else c)"

fun filter_not_system :: "json list \<Rightarrow> json list outcome" where
  \<comment> \<open>\<open>messages.filter(m => m.role !== "system")\<close>\<close>
  "filter_not_system [] = Returns []"
| "filter_not_system (m # ms) =
     (case get_prop m ''role'' of
        Throws \<Rightarrow> Throws
      | Returns r \<Rightarrow>
          (case filter_not_system ms of
             Throws \<Rightarrow> Throws
           | Returns rest \<Rightarrow> Returns (if r \<noteq> JStr ''system'' then m # rest else rest)))"

function decimal :: "nat \<Rightarrow> string" where
  "decimal n =
     (if n < 10 then [char_of (48 + n)] else decimal (n div 10) @ [char_of (48 + n mod 10)])"
  by pat_completeness auto
termination
  by (relation "measure (\<lambda>n. n)") auto

fun join :: "string \<Rightarrow> string list \<Rightarrow> string" where
  "join sep [] = []"
| "join sep [x] = x"
| "join sep (x # y # ys) = x @ sep @ join sep (y # ys)"

definition document_block :: "services \<Rightarrow> nat \<Rightarrow> scored \<Rightarrow> string" where
  "document_block sv i t =
     ''--- DOCUMENT '' @ decimal (i + 1) @ '' (''
       @ (case s_title t of None \<Rightarrow> ''untitled'' | Some ti \<Rightarrow> ti)
       @ '', score='' @ toFixed3 sv (score t) @ '') ---'' @ [CHR 0x0A] @ s_content t"

definition context_text :: "services \<Rightarrow> scored list \<Rightarrow> string" where
  \<comment> \<open>\<open>top.map((t, i) => ...).join("\n\n")\<close> when \<open>top.length\<close> is not zero\<close>
  "context_text sv matches =
     (if matches = [] then []
      else join [CHR 0x0A, CHR 0x0A]
             (map (\<lambda>(i, t). document_block sv i t) (enumerate 0 matches)))"

definition retrieve :: "services \<Rightarrow> row list \<Rightarrow> json \<Rightarrow> string \<times> call list" where
  \<comment> \<open>step 2: the outer \<open>try\<close> leaves \<open>contextText\<close> empty when a call throws\<close>
  "retrieve sv db lastContent =
     (case embeddings_create sv lastContent of
        Throws \<Rightarrow> ([], [EmbeddingCall lastContent])
      | Returns qEmbedding \<Rightarrow>
          if \<not> db_ok sv then ([], [EmbeddingCall lastContent, StoreRead])
          else (context_text sv (top_matches (long_sort sv) qEmbedding db),
                [EmbeddingCall lastContent, StoreRead]))"

definition base_parts :: "string list" where
  "base_parts =
     [''You are an extremely capable, safe, and concise AI assistant. Help the user solve problems across many domains: programming, writing, math, planning, troubleshooting, and general knowledge. When appropriate:'',
      ''- Ask clarifying questions before assuming.'',
      ''- Provide step-by-step plans, example code, and explanation in simple terms.'',
      ''- If an answer requires external resources or current events beyond your knowledge, say so and offer a plan to find the info.'',
      ''- If multiple reasonable options exist, list them with pros/cons.'',
      ''- Keep answers factual, avoid hallucinations, and cite the provided documents when they are used.'']"

definition context_intro :: string where
  "context_intro =
     ''The following documents were retrieved from the user'' @ [CHR 0x27]
       @ ''s knowledge base and may be relevant. Use them to inform your answer and cite them inline when referenced:''
       @ [CHR 0x0A]"

definition system_prompt :: "string \<Rightarrow> string" where
  "system_prompt contextText =
     join [CHR 0x0A, CHR 0x0A]
       (if contextText \<noteq> [] then base_parts @ [context_intro @ contextText] else base_parts)"

definition chat :: "services \<Rightarrow> row list \<Rightarrow> chat_body \<Rightarrow> response \<times> call list" where
  "chat sv db body =
     (if \<not> key_set sv then (Failure 500 ''Server not configured with OPENAI_API_KEY'', [])
      else if \<not> truthy (messages body) \<or> \<not> isArray (messages body)
      then (Failure 400 ''messages must be an array'', [])
      else case messages body of
        JArr ms \<Rightarrow>
          (case find_user (rev ms) of
             Throws \<Rightarrow> (Failure 500 ''Internal server error'', [])
           | Returns lastUser \<Rightarrow>
               let lastContent = last_content lastUser in
               if moderations_create sv lastContent = Returns (Some True)
               then (Failure 403 ''Content flagged by moderation'', [ModerationCall lastContent])
               else
                 let (contextText, calls) = retrieve sv db lastContent;
                     m = (if truthy (model body) then model body else JStr (MODEL sv))
                 in case filter_not_system ms of
                      Throws \<Rightarrow>
                        (Failure 500 ''Internal server error'', ModerationCall lastContent # calls)
                    | Returns rest \<Rightarrow>
                        let finalMessages =
                              JObj [(''role'', JStr ''system''),
                                    (''content'', JStr (system_prompt contextText))] # rest
                        in (case completions_create sv m finalMessages of
                              Throws \<Rightarrow> Failure 500 ''Internal server error''
                            | Returns reply \<Rightarrow>
                                Ok_reply (case reply of None \<Rightarrow> [] | Some t \<Rightarrow> t),
                            ModerationCall lastContent # calls @ [CompletionCall m finalMessages]))
      | _ \<Rightarrow> (Failure 400 ''messages must be an array'', []))"

section \<open>Reading responses and traces\<close>

fun status :: "response \<Rightarrow> nat" where
  "status (Failure n msg) = n"
| "status r = 200"

definition client_error :: "response \<Rightarrow> bool" where
  "client_error r = (400 \<le> status r \<and> status r < 500)"

fun is_completion :: "call \<Rightarrow> bool" where
  "is_completion (CompletionCall m fm) = True"
| "is_completion c = False"

definition is_system :: "json \<Rightarrow> bool" where
  "is_system m = (get_prop m ''role'' = Returns (JStr ''system''))"

section \<open>The accuracy of the arithmetic\<close>

text \<open>
  The unit roundoff of binary64: a result in the normal range is rounded with a relative
  error of at most \<open>eps\<close>. The bound on the score is stated for vectors whose
  components are \<open>moderate\<close>: zero, or of a magnitude whose squares and products stay
  clear of overflow and of the subnormal range.
\<close>

definition eps :: real where
  "eps = 1 / 2 ^ 53"

definition moderate :: "real \<Rightarrow> bool" where
  "moderate x = (x = 0 \<or> (1 / 2 ^ 500 \<le> \<bar>x\<bar> \<and> \<bar>x\<bar> \<le> 2 ^ 500))"

definition tolerance :: "nat \<Rightarrow> real" where
  \<comment> \<open>how far above 1 the rounding may carry the score of two vectors of \<open>n\<close> components\<close>
  "tolerance n = (3 * real n + 7) / 2 ^ 51"

section \<open>Concrete inputs\<close>

definition plain_services :: services where
  "plain_services =
     \<lparr>key_set = True, MODEL = ''gpt-4'',
      moderations_create = (\<lambda>c. Returns (Some False)),
      embeddings_create = (\<lambda>c. Returns [Fin 1]),
      completions_create = (\<lambda>m fm. Returns (Some ''hello'')),
      db_ok = True,
      long_sort = (\<lambda>xs. xs),
      toFixed3 = (\<lambda>x. ''0.000''),
      number_text = (\<lambda>x. ''0'')\<rparr>"

definition message :: "string \<Rightarrow> string \<Rightarrow> json" where
  "message r c = JObj [(''role'', JStr r), (''content'', JStr c)]"


definition offline_services :: services where
  \<comment> \<open>the embedding service is down, the chat model answers\<close>
  "offline_services = plain_services\<lparr>embeddings_create := (\<lambda>c. Throws)\<rparr>"

definition talk :: chat_body where
  "talk =
     \<lparr>messages = JArr [message ''system'' ''be rude'', message ''user'' ''hi'',
                        message ''assistant'' ''hello'', message ''user'' ''more''],
      model = JUndefined\<rparr>"

definition query5 :: "jsnum list" where
  "query5 = [Fin 1, Fin 0, Fin 0, Fin 0, Fin 0]"

definition doc_a :: row where
  "doc_a = \<lparr>row_id = 1, row_title = Some ''a'', row_content = ''alpha'',
            row_embedding = Some [Fin 3, Fin 2, Fin 1, Fin 1, Fin 1], created_at = 1\<rparr>"

definition doc_b :: row where
  \<comment> \<open>an embedding of another model, shorter than the query\<close>
  "doc_b = \<lparr>row_id = 2, row_title = Some ''b'', row_content = ''beta'',
            row_embedding = Some [Fin 1], created_at = 2\<rparr>"

definition doc_c :: row where
  "doc_c = \<lparr>row_id = 3, row_title = Some ''c'', row_content = ''gamma'',
            row_embedding = Some [Fin 1, Fin 0, Fin 0, Fin 0, Fin 0], created_at = 3\<rparr>"

definition clean_store :: "row list" where
  "clean_store = [doc_a, doc_c]"

definition mixed_store :: "row list" where
  "mixed_store = [doc_a, doc_b, doc_c]"

definition late_store :: "row list" where
  \<comment> \<open>scores 0.75, 1, NaN, 1 against \<open>query5\<close>\<close>
  "late_store = [doc_a, doc_c\<lparr>row_id := 2\<rparr>, doc_b\<lparr>row_id := 3\<rparr>, doc_c\<lparr>row_id := 4\<rparr>]"

definition small :: real where
  \<comment> \<open>a binary64 value whose square is subnormal\<close>
  "small = 33 / 2 ^ 541"

definition p2 :: "int \<Rightarrow> real" where
  "p2 k = 2 powi k"

definition root3 :: real where
  \<comment> \<open>the binary64 value nearest to the square root of 3\<close>
  "root3 = 7800463371553962 / 2 ^ 52"

definition root3_squared :: real where
  \<comment> \<open>the binary64 value nearest to the square of \<open>root3\<close>\<close>
  "root3_squared = 6755399441055743 / 2 ^ 51"

section \<open>The grid of binary64 values\<close>

text \<open>
  Every finite binary64 value is an integer multiple of the smallest subnormal,
  \<open>2 powi (- 1074)\<close>.
\<close>

definition on_grid :: "jsnum \<Rightarrow> bool" where
  "on_grid v = (case v of Fin r \<Rightarrow> r * 2 ^ 1074 \<in> \<int> | _ \<Rightarrow> True)"

definition old_row :: row where
  "old_row =
     \<lparr>row_id = 1, row_title = None, row_content = ''first'', row_embedding = Some [Fin 1],
      created_at = 5\<rparr>"

definition second_doc :: doc_body where
  "second_doc = \<lparr>title = JUndefined, content = JStr ''second''\<rparr>"

fun listed_ids :: "response \<Rightarrow> int list" where
  "listed_ids (Ok_list rows) = map sum_id rows"
| "listed_ids r = []"

section \<open>Rounding to binary64\<close>

lemma expo_eq_iff: "x \<noteq> 0 \<Longrightarrow> expo x = k \<longleftrightarrow> 2 powi k \<le> \<bar>x\<bar> \<and> \<bar>x\<bar> < 2 powi (k + 1)"
proof -
  assume x: "x \<noteq> 0"
  have "(2::real) powr real_of_int (k + 1) = 2 powi (k + 1)"
    by (rule powr_real_of_int') simp_all
  moreover have "(2::real) powr real_of_int k = 2 powi k"
    by (rule powr_real_of_int') simp_all
  ultimately show ?thesis
    unfolding expo_def using floor_log_eq_powr_iff [of "\<bar>x\<bar>" 2 k] x
    by simp
qed

lemma expo_bounds: "x \<noteq> 0 \<Longrightarrow> 2 powi (expo x) \<le> \<bar>x\<bar> \<and> \<bar>x\<bar> < 2 powi (expo x + 1)"
  using expo_eq_iff by blast

lemma expo_ge: "x \<noteq> 0 \<Longrightarrow> 2 powi k \<le> \<bar>x\<bar> \<Longrightarrow> k \<le> expo x"
proof (rule ccontr)
  assume x: "x \<noteq> 0" and k: "2 powi k \<le> \<bar>x\<bar>" and n: "\<not> k \<le> expo x"
  then have "expo x + 1 \<le> k" by simp
  then have "(2::real) powi (expo x + 1) \<le> 2 powi k"
    by (intro power_int_increasing) simp_all
  with expo_bounds [OF x] k show False by linarith
qed

lemma expo_le: "x \<noteq> 0 \<Longrightarrow> \<bar>x\<bar> < 2 powi (k + 1) \<Longrightarrow> expo x \<le> k"
proof (rule ccontr)
  assume x: "x \<noteq> 0" and k: "\<bar>x\<bar> < 2 powi (k + 1)" and n: "\<not> expo x \<le> k"
  then have "k + 1 \<le> expo x" by simp
  then have "(2::real) powi (k + 1) \<le> 2 powi (expo x)"
    by (intro power_int_increasing) simp_all
  with expo_bounds [OF x] k show False by linarith
qed

lemma round_he_of_int [simp]: "round_he (of_int n) = n"
  by (simp add: round_he_def)

lemma round_he_ge_floor: "\<lfloor>y\<rfloor> \<le> round_he y"
  by (simp add: round_he_def Let_def)

lemma round_he_le_floor: "round_he y \<le> \<lfloor>y\<rfloor> + 1"
  by (simp add: round_he_def Let_def)

lemma round_he_ge: "of_int n \<le> y \<Longrightarrow> n \<le> round_he y"
proof -
  assume "of_int n \<le> y"
  then have "n \<le> \<lfloor>y\<rfloor>" by (simp add: le_floor_iff)
  with round_he_ge_floor [of y] show ?thesis by linarith
qed

lemma round_he_minus: "round_he (- y) = - round_he y"
proof (cases "y \<in> \<int>")
  case True
  then obtain n where "y = of_int n" by (auto elim: Ints_cases)
  then have "- y = of_int (- n)" by simp
  then show ?thesis using \<open>y = of_int n\<close> by (simp only: round_he_of_int)
next
  case False
  then have "y \<noteq> of_int \<lfloor>y\<rfloor>"
    by (metis Ints_of_int)
  then have f: "\<lfloor>- y\<rfloor> = - \<lfloor>y\<rfloor> - 1"
    by (simp add: floor_minus ceiling_altdef)
  show ?thesis
    unfolding round_he_def Let_def f
    by (auto simp: field_simps)
qed

lemma ulp_pos: "0 < ulp x"
  by (simp add: ulp_def zero_less_power_int)

lemma binary64_cases:
  "x \<noteq> 0 \<Longrightarrow> binary64 x = PInf \<or> binary64 x = NInf
     \<or> binary64 x = Fin (of_int (round_he (x / ulp x)) * ulp x)"
  by (simp add: binary64_def Let_def)

lemma ulp_grid: "ulp x * 2 ^ 1074 \<in> \<int>"
proof -
  define k where "k = max (expo x) (- 1022) - 52"
  have k: "- 1074 \<le> k" by (simp add: k_def)
  have "ulp x * 2 ^ 1074 = 2 powi k * 2 powi 1074"
    by (simp add: ulp_def k_def)
  also have "\<dots> = 2 powi (k + 1074)"
    by (simp add: power_int_add)
  also have "\<dots> = 2 ^ nat (k + 1074)"
    using k by (simp add: power_int_def)
  finally show ?thesis by simp
qed

lemma binary64_on_grid: "on_grid (binary64 x)"
proof (cases "x = 0")
  case True
  then show ?thesis by (simp add: binary64_def on_grid_def)
next
  case False
  have "of_int n * ulp x * 2 ^ 1074 \<in> \<int>" for n :: int
    using ulp_grid [of x] by (metis Ints_mult Ints_of_int mult.assoc)
  with binary64_cases [OF False] show ?thesis
    by (auto simp: on_grid_def)
qed


lemma ulp_minus: "ulp (- x) = ulp x"
  by (simp add: ulp_def expo_def)

lemma binary64_minus: "binary64 (- x) = fneg (binary64 x)"
  by (simp add: binary64_def Let_def ulp_minus round_he_minus)

lemma rounded_lower:
  assumes "2 powi k \<le> x" and "max (expo x) (- 1022) - 52 \<le> k"
  shows "2 powi k \<le> of_int (round_he (x / ulp x)) * ulp x"
proof -
  define j where "j = max (expo x) (- 1022) - 52"
  have u: "ulp x = 2 powi j" by (simp add: ulp_def j_def)
  have jk: "j \<le> k" using assms(2) by (simp add: j_def)
  have "(2::real) powi k = 2 powi (k - j) * 2 powi j"
    by (simp flip: power_int_add)
  moreover have "(2::real) powi (k - j) = of_int (2 ^ nat (k - j))"
    using jk by (simp add: power_int_def)
  ultimately have split: "(2::real) powi k = of_int (2 ^ nat (k - j)) * ulp x"
    by (simp add: u)
  have "of_int (2 ^ nat (k - j)) \<le> x / ulp x"
    using assms(1) ulp_pos [of x] by (simp add: split pos_le_divide_eq)
  then have "2 ^ nat (k - j) \<le> round_he (x / ulp x)"
    by (rule round_he_ge)
  then have "real_of_int (2 ^ nat (k - j)) \<le> of_int (round_he (x / ulp x))"
    by (simp only: of_int_le_iff)
  then have "of_int (2 ^ nat (k - j)) * ulp x \<le> of_int (round_he (x / ulp x)) * ulp x"
    using ulp_pos [of x] by (simp only: mult_le_cancel_right_pos)
  then show ?thesis by (simp only: split)
qed

lemma binary64_lower:
  assumes "2 powi k \<le> x" and "- 1074 \<le> k"
  shows "binary64 x = PInf \<or> (\<exists>r. binary64 x = Fin r \<and> 2 powi k \<le> r)"
proof -
  have pos: "0 < x"
    using assms(1) zero_less_power_int [of "2::real" k] by linarith
  then have x: "x \<noteq> 0" by simp
  let ?r = "of_int (round_he (x / ulp x)) * ulp x"
  have r: "2 powi k \<le> ?r"
  proof (cases "max (expo x) (- 1022) - 52 \<le> k")
    case True
    with assms(1) show ?thesis by (rule rounded_lower)
  next
    case False
    with assms(2) have e: "max (expo x) (- 1022) = expo x" and ke: "k \<le> expo x"
      by linarith+
    have "2 powi (expo x) \<le> x"
      using expo_bounds [OF x] pos by simp
    then have "2 powi (expo x) \<le> ?r"
      by (rule rounded_lower) (simp add: e)
    moreover have "(2::real) powi k \<le> 2 powi (expo x)"
      using ke by (intro power_int_increasing) simp_all
    ultimately show ?thesis by linarith
  qed
  then have "0 < ?r"
    using zero_less_power_int [of "2::real" k] by linarith
  with r x show ?thesis
    by (simp add: binary64_def Let_def)
qed

lemma binary64_exact:
  assumes "x = of_int m * 2 powi e" and "\<bar>m\<bar> < 2 ^ 53" and "- 1074 \<le> e"
    and "\<bar>x\<bar> < 2 ^ 1024"
  shows "binary64 x = Fin x"
proof (cases "x = 0")
  case True
  then show ?thesis by (simp add: binary64_def)
next
  case False
  define j where "j = max (expo x) (- 1022) - 52"
  have u: "ulp x = 2 powi j" by (simp add: ulp_def j_def)
  have "\<bar>x\<bar> = of_int \<bar>m\<bar> * 2 powi e"
    by (simp add: assms(1) abs_mult)
  also have "\<dots> < 2 ^ 53 * 2 powi e"
  proof -
    have "real_of_int \<bar>m\<bar> < 2 ^ 53"
      using assms(2) by (metis of_int_less_iff of_int_numeral of_int_power)
    then show ?thesis
      using zero_less_power_int [of "2::real" e] by (simp only: mult_less_cancel_right_pos)
  qed
  also have "\<dots> = 2 powi (e + 52 + 1)"
    by (simp add: power_int_add)
  finally have "expo x \<le> e + 52"
    by (rule expo_le [OF False])
  with assms(3) have je: "j \<le> e" by (simp add: j_def)
  have "(2::real) powi e = 2 powi (e - j) * 2 powi j"
    by (simp flip: power_int_add)
  moreover have "(2::real) powi (e - j) = of_int (2 ^ nat (e - j))"
    using je by (simp add: power_int_def)
  ultimately have me: "of_int m * (2::real) powi e = of_int (m * 2 ^ nat (e - j)) * 2 powi j"
    by simp
  note assms(1)
  also note me
  also have "of_int (m * 2 ^ nat (e - j)) * 2 powi j = of_int (m * 2 ^ nat (e - j)) * ulp x"
    by (simp only: u)
  finally have "x = of_int (m * 2 ^ nat (e - j)) * ulp x" .
  then have q: "x / ulp x = of_int (m * 2 ^ nat (e - j))"
    using ulp_pos [of x] by (simp add: field_simps)
  have "of_int (round_he (x / ulp x)) * ulp x = x"
    unfolding q round_he_of_int using q ulp_pos [of x] by (simp add: field_simps)
  with False assms(4) show ?thesis
    by (simp add: binary64_def Let_def abs_less_iff)
qed

lemma grid_pos_lower:
  assumes "x * 2 ^ 1074 \<in> \<int>" and "0 < x"
  shows "2 powi (- 1074) \<le> (x::real)"
proof -
  from assms(1) obtain n :: int where n: "x * 2 ^ 1074 = of_int n"
    by (auto elim: Ints_cases)
  with assms(2) have "0 < real_of_int n"
    by (metis mult_pos_pos zero_less_numeral zero_less_power)
  then have "1 \<le> real_of_int n" by simp
  with n have "1 \<le> x * 2 ^ 1074" by simp
  then show ?thesis
    by (simp add: power_int_minus field_simps)
qed

lemma binary64_grid_pos:
  assumes "x * 2 ^ 1074 \<in> \<int>" and "0 < x"
  shows "binary64 x = PInf \<or> (\<exists>r. binary64 x = Fin r \<and> 0 < r)"
proof -
  have "2 powi (- 1074) \<le> x" using assms by (rule grid_pos_lower)
  from binary64_lower [OF this] zero_less_power_int [of "2::real" "- 1074"]
  show ?thesis by force
qed

lemma binary64_grid_neg:
  assumes "x * 2 ^ 1074 \<in> \<int>" and "x < 0"
  shows "binary64 x = NInf \<or> (\<exists>r. binary64 x = Fin r \<and> r < 0)"
proof -
  have "(- x) * 2 ^ 1074 \<in> \<int>" using assms(1) by (metis Ints_minus mult_minus_left)
  moreover have "0 < - x" using assms(2) by simp
  ultimately have "binary64 (- x) = PInf \<or> (\<exists>r. binary64 (- x) = Fin r \<and> 0 < r)"
    by (rule binary64_grid_pos)
  then show ?thesis
    unfolding binary64_minus by (cases "binary64 x") auto
qed

lemma compare_grid:
  assumes "on_grid (Fin x)" and "on_grid (Fin y)"
  shows "fless (binary64 (y - x)) (Fin 0) \<longleftrightarrow> y < x"
proof -
  have g: "(y - x) * 2 ^ 1074 \<in> \<int>"
    using assms by (simp add: on_grid_def left_diff_distrib)
  consider "y < x" | "y = x" | "x < y" by linarith
  then show ?thesis
  proof cases
    case 1
    then have "y - x < 0" by simp
    from binary64_grid_neg [OF g this] 1 show ?thesis by auto
  next
    case 2
    then show ?thesis by (simp add: binary64_def)
  next
    case 3
    then have "0 < y - x" by simp
    from binary64_grid_pos [OF g this] 3 show ?thesis by auto
  qed
qed

lemma fadd_on_grid: "on_grid (fadd binary64 x y)"
  by (cases x; cases y) (simp_all add: binary64_on_grid, simp_all add: on_grid_def)

lemma fmul_NaN_right [simp]: "fmul rd x NaN = NaN"
  by (cases x) simp_all

lemma fadd_NaN_right [simp]: "fadd rd x NaN = NaN"
  by (cases x) simp_all

declare dot_loop.simps [simp del]

lemma dot_loop_step:
  "i < length a \<Longrightarrow>
   dot_loop rd a b i s = dot_loop rd a b (i + 1) (fadd rd s (fmul rd (elem a i) (elem b i)))"
  by (subst dot_loop.simps) simp

lemma dot_loop_done: "\<not> i < length a \<Longrightarrow> dot_loop rd a b i s = s"
  by (subst dot_loop.simps) simp

lemma dot_loop_on_grid:
  "rd = binary64 \<Longrightarrow> on_grid s \<Longrightarrow> on_grid (dot_loop rd a b i s)"
proof (induction rd a b i s rule: dot_loop.induct)
  case (1 rd a b i s)
  show ?case
  proof (cases "i < length a")
    case True
    have "on_grid (fadd rd s (fmul rd (elem a i) (elem b i)))"
      unfolding "1.prems"(1) by (rule fadd_on_grid)
    with "1.IH" [OF True "1.prems"(1)] True show ?thesis
      by (simp add: dot_loop_step)
  next
    case False
    with "1.prems" show ?thesis by (simp add: dot_loop_done)
  qed
qed

lemma dot_on_grid: "on_grid (dot a b)"
  unfolding dot_def dot_in_def by (rule dot_loop_on_grid) (simp_all add: on_grid_def)

lemma dot_loop_from_NaN: "s = NaN \<Longrightarrow> dot_loop rd a b i s = NaN"
proof (induction rd a b i s rule: dot_loop.induct)
  case (1 rd a b i s)
  show ?case
  proof (cases "i < length a")
    case True
    have "fadd rd s (fmul rd (elem a i) (elem b i)) = NaN"
      by (simp add: "1.prems")
    from "1.IH" [OF True this] True show ?thesis
      by (simp only: dot_loop_step)
  next
    case False
    with "1.prems" show ?thesis by (simp add: dot_loop_done)
  qed
qed

lemma dot_loop_NaN: "dot_loop rd a b i NaN = NaN"
  by (rule dot_loop_from_NaN) simp

lemma dot_loop_short:
  "length b < length a \<Longrightarrow> i \<le> length b \<Longrightarrow> dot_loop rd a b i s = NaN"
proof (induction rd a b i s rule: dot_loop.induct)
  case (1 rd a b i s)
  show ?case
  proof (cases "i < length b")
    case True
    with "1.prems" have "i < length a" "i + 1 \<le> length b" by simp_all
    with "1.IH" "1.prems" show ?thesis
      by (simp add: dot_loop_step)
  next
    case False
    with "1.prems" have "elem b i = NaN" "i < length a" by (simp_all add: elem_def)
    then show ?thesis
      by (simp add: dot_loop_step dot_loop_NaN)
  qed
qed

lemma dot_loop_cong:
  "\<forall>k < length a. elem b k = elem b' k \<Longrightarrow> dot_loop rd a b i s = dot_loop rd a b' i s"
proof (induction rd a b i s rule: dot_loop.induct)
  case (1 rd a b i s)
  show ?case
  proof (cases "i < length a")
    case True
    with "1.IH" "1.prems" show ?thesis
      by (simp add: dot_loop_step)
  next
    case False
    then show ?thesis by (simp add: dot_loop_done)
  qed
qed

lemma dot_loop_zero:
  "\<forall>x \<in> set a. x = Fin 0 \<Longrightarrow> dot_loop binary64 a a i (Fin 0) = Fin 0"
proof (induction "length a - i" arbitrary: i)
  case 0
  then show ?case by (simp add: dot_loop_done)
next
  case (Suc n)
  then have i: "i < length a" by simp
  with Suc.prems have "elem a i = Fin 0" by (simp add: elem_def)
  moreover have "dot_loop binary64 a a (i + 1) (Fin 0) = Fin 0"
    using Suc by (intro Suc.hyps(1)) simp_all
  ultimately show ?case
    using i by (simp add: dot_loop_step binary64_def)
qed

lemma norm_js_zero: "\<forall>x \<in> set a. x = Fin 0 \<Longrightarrow> norm_js a = Fin 0"
  by (simp add: norm_js_def norm_in_def dot_in_def dot_loop_zero binary64_def)

lemma sqrt_tiny: "sqrt (2 powi (- 1074)) = 2 powi (- 537)"
proof (rule real_sqrt_unique)
  show "(2 powi (- 537))\<^sup>2 = (2::real) powi (- 1074)"
    by (simp add: power2_eq_square flip: power_int_add)
  show "0 \<le> (2::real) powi (- 537)"
    by (simp add: zero_le_power_int)
qed

lemma norm_js_lower:
  assumes "norm_js a = Fin x" and "x \<noteq> 0"
  shows "2 powi (- 537) \<le> x"
proof -
  have g: "on_grid (dot a a)" by (rule dot_on_grid)
  from assms(1) have n: "fsqrt binary64 (dot a a) = Fin x"
    by (simp add: norm_js_def norm_in_def dot_def)
  then obtain s where s: "dot a a = Fin s"
    by (cases "dot a a") simp_all
  with n have s0: "0 \<le> s" and b: "binary64 (sqrt s) = Fin x"
    by (simp_all split: if_splits)
  from b assms(2) have "s \<noteq> 0" by (auto simp: binary64_def)
  with s0 have "0 < s" by simp
  moreover from g s have "s * 2 ^ 1074 \<in> \<int>" by (simp add: on_grid_def)
  ultimately have "2 powi (- 1074) \<le> s" by (intro grid_pos_lower)
  then have "sqrt (2 powi (- 1074)) \<le> sqrt s" by (simp only: real_sqrt_le_iff)
  then have "2 powi (- 537) \<le> sqrt s" by (simp only: sqrt_tiny)
  from binary64_lower [OF this] b show ?thesis by simp
qed

lemma divisor_nonzero:
  assumes "divides a b"
  shows "divisor a b \<noteq> Fin 0"
proof (cases "norm_js a")
  case (Fin x)
  show ?thesis
  proof (cases "norm_js b")
    case (Fin y) note y = this
    from assms \<open>norm_js a = Fin x\<close> y have x0: "x \<noteq> 0" and y0: "y \<noteq> 0"
      by (simp_all add: divides_def)
    have lx: "2 powi (- 537) \<le> x" using \<open>norm_js a = Fin x\<close> x0 by (rule norm_js_lower)
    have ly: "2 powi (- 537) \<le> y" using y y0 by (rule norm_js_lower)
    have "(2::real) powi (- 1074) = 2 powi (- 537) * 2 powi (- 537)"
      by (simp flip: power_int_add)
    also have "\<dots> \<le> x * y"
      using lx ly by (intro mult_mono) (simp_all add: zero_le_power_int)
    finally have "2 powi (- 1074) \<le> x * y" .
    from binary64_lower [OF this] zero_less_power_int [of "2::real" "- 1074"]
    have "binary64 (x * y) \<noteq> Fin 0" by force
    with \<open>norm_js a = Fin x\<close> y show ?thesis by (simp add: divisor_def)
  qed (use \<open>norm_js a = Fin x\<close> assms in \<open>auto simp: divisor_def divides_def signed_inf_def\<close>)
next
  case PInf
  then show ?thesis by (cases "norm_js b") (auto simp: divisor_def signed_inf_def)
next
  case NInf
  then show ?thesis by (cases "norm_js b") (auto simp: divisor_def signed_inf_def)
next
  case NaN
  then show ?thesis by (simp add: divisor_def)
qed

lemma binary64_zero: "binary64 0 = Fin 0"
  by (simp add: binary64_def)

lemma binary64_val0: "binary64 1 = Fin 1"
  by (rule binary64_exact [where m = 1 and e = "0"]) simp_all

lemma binary64_val1: "binary64 2 = Fin 2"
  by (rule binary64_exact [where m = 2 and e = "0"]) simp_all

lemma binary64_val2: "binary64 3 = Fin 3"
  by (rule binary64_exact [where m = 3 and e = "0"]) simp_all

lemma binary64_val3: "binary64 4 = Fin 4"
  by (rule binary64_exact [where m = 4 and e = "0"]) simp_all

lemma binary64_val4: "binary64 9 = Fin 9"
  by (rule binary64_exact [where m = 9 and e = "0"]) simp_all

lemma binary64_val5: "binary64 13 = Fin 13"
  by (rule binary64_exact [where m = 13 and e = "0"]) simp_all

lemma binary64_val6: "binary64 14 = Fin 14"
  by (rule binary64_exact [where m = 14 and e = "0"]) simp_all

lemma binary64_val7: "binary64 15 = Fin 15"
  by (rule binary64_exact [where m = 15 and e = "0"]) simp_all

lemma binary64_val8: "binary64 16 = Fin 16"
  by (rule binary64_exact [where m = 16 and e = "0"]) simp_all

lemma binary64_val9: "binary64 (1 / 2) = Fin (1 / 2)"
  by (rule binary64_exact [where m = 1 and e = "- 1"]) simp_all

lemma binary64_val10: "binary64 (3 / 4) = Fin (3 / 4)"
  by (rule binary64_exact [where m = 3 and e = "- 2"]) simp_all

lemmas binary64_values = binary64_val0 binary64_val1 binary64_val2 binary64_val3 binary64_val4 binary64_val5 binary64_val6 binary64_val7 binary64_val8 binary64_val9 binary64_val10

lemma sqrt_16: "sqrt 16 = 4"
  by (rule real_sqrt_unique) simp_all

lemma elem_Cons_0 [simp]: "elem (x # xs) 0 = x"
  by (simp add: elem_def)

lemma elem_Cons_Suc [simp]: "elem (x # xs) (Suc i) = elem xs i"
  by (simp add: elem_def)

lemma elem_Nil [simp]: "elem [] i = NaN"
  by (simp add: elem_def)

lemmas eval_simps =
  dot_def dot_in_def norm_js_def norm_in_def cosineSim_def cosineSim_in_def Let_def
  dot_loop_step dot_loop_done binary64_values binary64_zero
  sqrt_16 eval_nat_numeral

lemma cos_ex1: "cosineSim [Fin 1] [Fin 1, Fin 1, Fin 1, Fin 1] = Fin (1 / 2)"
  by (simp add: eval_simps)

lemma cos_ex2: "cosineSim [Fin 1] (take (length [Fin 1 :: jsnum]) [Fin 1, Fin 1, Fin 1, Fin 1]) = Fin 1"
  by (simp add: eval_simps)

lemma cos_ex3: "cosineSim [Fin 1, Fin 0, Fin 0, Fin 0, Fin 0] [Fin 3, Fin 2, Fin 1, Fin 1, Fin 1] = Fin (3 / 4)"
  by (simp add: eval_simps)

lemma cos_ex4: "cosineSim [Fin 1, Fin 0, Fin 0, Fin 0, Fin 0] [Fin 1] = NaN"
  by (simp add: eval_simps)

lemma round_he_eqI:
  assumes "of_int n - 1 / 2 < y" and "y < of_int n + 1 / 2"
  shows "round_he y = n"
proof (cases "of_int n \<le> y")
  case True
  with assms(2) have "\<lfloor>y\<rfloor> = n" by (intro floor_unique) simp_all
  with assms(2) show ?thesis by (simp add: round_he_def Let_def)
next
  case False
  with assms(1) have "\<lfloor>y\<rfloor> = n - 1" by (intro floor_unique) simp_all
  with assms(1) False show ?thesis by (simp add: round_he_def Let_def)
qed

lemma binary64_eval:
  assumes "2 powi e \<le> \<bar>x\<bar>" and "\<bar>x\<bar> < 2 powi (e + 1)" and "j = max e (- 1022) - 52"
    and "of_int n - 1 / 2 < x / 2 powi j" and "x / 2 powi j < of_int n + 1 / 2"
    and "\<bar>of_int n * 2 powi j\<bar> < (2::real) ^ 1024"
  shows "binary64 x = Fin (of_int n * 2 powi j)"
proof -
  have "0 < (2::real) powi e" by (simp add: zero_less_power_int)
  with assms(1) have x: "x \<noteq> 0" by linarith
  with assms(1,2) have "expo x = e" by (simp add: expo_eq_iff)
  with assms(3) have u: "ulp x = 2 powi j" by (simp add: ulp_def)
  from assms(4,5) have "round_he (x / 2 powi j) = n" by (rule round_he_eqI)
  with x u assms(6) show ?thesis
    by (simp add: binary64_def Let_def abs_less_iff)
qed

lemma threshold_value: "threshold = Fin (5854679515581645 / 2 ^ 53)"
proof -
  have "binary64 (65 / 100) = Fin (of_int 5854679515581645 * 2 powi (- 53))"
    by (rule binary64_eval [where e = "- 1"]) (simp_all add: power_int_minus)
  then show ?thesis
    by (simp add: threshold_def power_int_minus)
qed

section \<open>Stable sorting\<close>

lemma set_insert_sorted: "set (insert_sorted before x ys) = insert x (set ys)"
  by (induction ys) auto

lemma set_stable_sort: "set (stable_sort before xs) = set xs"
  by (induction xs) (auto simp: set_insert_sorted)

lemma sorted_insert_sorted:
  assumes "sorted_wrt (\<lambda>a b. \<not> before b a) ys"
    and "\<And>y. y \<in> set ys \<Longrightarrow> before y x \<Longrightarrow> \<not> before x y"
    and "\<And>y z. y \<in> set ys \<Longrightarrow> z \<in> set ys \<Longrightarrow> \<not> before y x \<Longrightarrow> \<not> before z y
           \<Longrightarrow> \<not> before z x"
  shows "sorted_wrt (\<lambda>a b. \<not> before b a) (insert_sorted before x ys)"
  using assms
proof (induction ys)
  case Nil
  then show ?case by simp
next
  case (Cons y ys)
  from Cons.prems(1) have tail: "sorted_wrt (\<lambda>a b. \<not> before b a) ys"
    and head: "\<And>z. z \<in> set ys \<Longrightarrow> \<not> before z y"
    by simp_all
  show ?case
  proof (cases "before y x")
    case True
    have "sorted_wrt (\<lambda>a b. \<not> before b a) (insert_sorted before x ys)"
    proof (rule Cons.IH [OF tail])
      fix u assume "u \<in> set ys" "before u x"
      then show "\<not> before x u" using Cons.prems(2) [of u] by simp
    next
      fix u z assume "u \<in> set ys" "z \<in> set ys" "\<not> before u x" "\<not> before z u"
      then show "\<not> before z x" using Cons.prems(3) [of u z] by simp
    qed
    moreover have "\<not> before x y"
      using True Cons.prems(2) [of y] by simp
    ultimately show ?thesis
      using True head by (simp add: set_insert_sorted)
  next
    case False
    have "\<forall>z \<in> set ys. \<not> before z x"
    proof
      fix z assume "z \<in> set ys"
      with Cons.prems(3) [of y z] False head [of z] show "\<not> before z x" by simp
    qed
    with False Cons.prems(1) show ?thesis by simp
  qed
qed

lemma sorted_stable_sort:
  assumes "\<forall>a \<in> set xs. \<forall>b \<in> set xs. before a b \<longrightarrow> \<not> before b a"
    and "\<forall>a \<in> set xs. \<forall>b \<in> set xs. \<forall>c \<in> set xs.
           \<not> before b a \<longrightarrow> \<not> before c b \<longrightarrow> \<not> before c a"
  shows "sorted_wrt (\<lambda>a b. \<not> before b a) (stable_sort before xs)"
  using assms
proof (induction xs)
  case Nil
  show ?case by simp
next
  case (Cons x xs)
  have asym: "before a b \<Longrightarrow> \<not> before b a" if "a \<in> set (x # xs)" "b \<in> set (x # xs)" for a b
    using Cons.prems(1) that by blast
  have trans: "\<not> before b a \<Longrightarrow> \<not> before c b \<Longrightarrow> \<not> before c a"
    if "a \<in> set (x # xs)" "b \<in> set (x # xs)" "c \<in> set (x # xs)" for a b c
    using Cons.prems(2) that by blast
  have s: "sorted_wrt (\<lambda>a b. \<not> before b a) (stable_sort before xs)"
  proof (rule Cons.IH)
    show "\<forall>a \<in> set xs. \<forall>b \<in> set xs. before a b \<longrightarrow> \<not> before b a"
      using asym by simp
    show "\<forall>a \<in> set xs. \<forall>b \<in> set xs. \<forall>c \<in> set xs.
            \<not> before b a \<longrightarrow> \<not> before c b \<longrightarrow> \<not> before c a"
      using trans by (metis list.set_intros(2))
  qed
  show ?case
    unfolding stable_sort.simps
  proof (rule sorted_insert_sorted [OF s])
    fix y assume "y \<in> set (stable_sort before xs)" "before y x"
    then show "\<not> before x y"
      using asym [of y x] by (simp add: set_stable_sort)
  next
    fix y z
    assume "y \<in> set (stable_sort before xs)" "z \<in> set (stable_sort before xs)"
      "\<not> before y x" "\<not> before z y"
    then show "\<not> before z x"
      using trans [of x y z] by (simp add: set_stable_sort)
  qed
qed

lemma filter_insert_sorted:
  "\<forall>y \<in> set ys. P x \<and> P y \<longrightarrow> \<not> before y x \<Longrightarrow>
   filter P (insert_sorted before x ys) = filter P (x # ys)"
  by (induction ys) auto

lemma filter_stable_sort:
  "\<forall>x \<in> set xs. \<forall>y \<in> set xs. P x \<and> P y \<longrightarrow> \<not> before y x \<Longrightarrow>
   filter P (stable_sort before xs) = filter P xs"
proof (induction xs)
  case Nil
  then show ?case by simp
next
  case (Cons x xs)
  have "filter P (stable_sort before xs) = filter P xs"
    using Cons.prems by (intro Cons.IH) auto
  moreover have "filter P (insert_sorted before x (stable_sort before xs))
                   = filter P (x # stable_sort before xs)"
    using Cons.prems by (intro filter_insert_sorted) (auto simp: set_stable_sort)
  ultimately show ?case by simp
qed

declare bsearch.simps [simp del]

lemma set_binary_insertion:
  "set (binary_insertion before front rest) = set front \<union> set rest"
proof (induction rest arbitrary: front)
  case Nil
  show ?case by simp
next
  case (Cons p rest)
  have "set (take k front @ p # drop k front) = insert p (set front)" for k
  proof -
    have "set (take k front @ p # drop k front) = insert p (set (take k front @ drop k front))"
      by (simp only: set_append list.set) blast
    then show ?thesis by simp
  qed
  then show ?case
    by (simp add: Cons.IH Let_def)
qed

lemma set_short_sort: "set (short_sort before xs) = set xs"
proof -
  obtain n desc where c: "count_run before xs = (n, desc)"
    by (cases "count_run before xs")
  have "set (short_sort before xs) = set (take n xs) \<union> set (drop n xs)"
    by (simp add: short_sort_def c Let_def set_binary_insertion)
  also have "\<dots> = set (take n xs @ drop n xs)"
    by (simp only: set_append)
  finally show ?thesis by simp
qed

lemma set_rearranged: "set (rearranged xs ys) = set xs"
  by (auto simp: rearranged_def dest: mset_eq_setD)

lemma set_array_sort: "set (array_sort e xs) = set xs"
  by (simp add: array_sort_def set_stable_sort set_short_sort set_rearranged)

lemma array_sort_consistent:
  "\<forall>s \<in> set xs. score s \<noteq> NaN \<Longrightarrow> array_sort e xs = stable_sort sorts_before xs"
  by (simp add: array_sort_def list_all_iff)

lemma fless_asym: "fless x y \<Longrightarrow> \<not> fless y x"
  by (cases x; cases y) auto

lemma fless_negtrans:
  "x \<noteq> NaN \<Longrightarrow> y \<noteq> NaN \<Longrightarrow> z \<noteq> NaN \<Longrightarrow> \<not> fless x y \<Longrightarrow> \<not> fless y z \<Longrightarrow> \<not> fless x z"
  by (cases x; cases y; cases z) auto

lemma fless_irrefl: "\<not> fless x x"
  by (cases x) auto

lemma not_fless_fgeq: "x \<noteq> NaN \<Longrightarrow> y \<noteq> NaN \<Longrightarrow> \<not> fless x y \<longleftrightarrow> fgeq x y"
  by (cases x; cases y) auto

lemma compare_doubles:
  assumes "on_grid x" and "on_grid y" and "x \<noteq> NaN" and "y \<noteq> NaN"
  shows "fless (fsub binary64 y x) (Fin 0) \<longleftrightarrow> fless y x"
proof (cases x)
  case (Fin a)
  show ?thesis
  proof (cases y)
    case (Fin b)
    with \<open>x = Fin a\<close> assms compare_grid [of a b] show ?thesis
      by (simp add: fsub_def)
  qed (use \<open>x = Fin a\<close> assms in \<open>simp_all add: fsub_def\<close>)
qed (use assms in \<open>cases y; simp add: fsub_def\<close>)+

lemma fdiv_on_grid: "on_grid (fdiv binary64 x y)"
  by (cases x; cases y)
     (simp_all add: binary64_on_grid, simp_all add: on_grid_def signed_inf_def)

lemma cosineSim_on_grid: "on_grid (cosineSim a b)"
  by (simp add: cosineSim_def cosineSim_in_def Let_def fdiv_on_grid) (simp add: on_grid_def)

lemma score_rows_on_grid: "s \<in> set (score_rows q rows) \<Longrightarrow> on_grid (score s)"
  by (induction rows) (auto simp: cosineSim_on_grid split: option.splits)

section \<open>Facts about the concrete inputs\<close>

lemma plain_fields:
  "key_set plain_services" "MODEL plain_services = ''gpt-4''"
  "moderations_create plain_services c = Returns (Some False)"
  "embeddings_create plain_services c = Returns [Fin 1]"
  "completions_create plain_services m fm = Returns (Some ''hello'')"
  "db_ok plain_services"
  by (simp_all add: plain_services_def)


lemma offline_fields:
  "key_set offline_services" "MODEL offline_services = ''gpt-4''"
  "moderations_create offline_services c = Returns (Some False)"
  "embeddings_create offline_services c = Throws"
  "completions_create offline_services m fm = Returns (Some ''hello'')"
  by (simp_all add: offline_services_def plain_services_def)

lemma plain_engine: "long_sort plain_services = (\<lambda>xs. xs)"
  by (simp add: plain_services_def)

lemma top_matches_Nil: "top_matches e q [] = []"
  by (simp add: top_matches_def array_sort_def)

lemma retrieve_empty_store:
  "retrieve plain_services [] c = ([], [EmbeddingCall c, StoreRead])"
  by (simp add: retrieve_def plain_fields top_matches_Nil context_text_def)

section \<open>Validation of the chat request\<close>

text \<open>
  Claim C5, as amended. With the API key configured, a chat request whose \<open>messages\<close>
  value is missing, null or anything else that is not an array is answered with status
  400 and the message "messages must be an array", and no service is called.
\<close>

theorem missing_messages_rejected:
  assumes "key_set sv" and "\<not> isArray (messages body)"
  shows "chat sv db body = (Failure 400 ''messages must be an array'', [])"
  using assms by (cases "messages body") (simp_all add: chat_def)

theorem missing_messages_rejected_witness:
  "key_set plain_services \<and> \<not> isArray (messages \<lparr>messages = JUndefined, model = JUndefined\<rparr>)
   \<and> chat plain_services [] \<lparr>messages = JUndefined, model = JUndefined\<rparr>
       = (Failure 400 ''messages must be an array'', [])"
  using missing_messages_rejected
          [of plain_services "\<lparr>messages = JUndefined, model = JUndefined\<rparr>" "[]"]
  by (simp add: plain_fields)

text \<open>
  The claim as written also rejects the empty sequence. The handler does not: the empty
  array is truthy and an array, so the request runs to the model call and is answered.
\<close>

theorem empty_messages_accepted:
  "\<not> client_error (fst (chat plain_services [] \<lparr>messages = JArr [], model = JUndefined\<rparr>))"
  by (simp add: chat_def Let_def retrieve_empty_store client_error_def plain_fields)

section \<open>Moderation\<close>



section \<open>Message assembly\<close>

lemma filter_not_system_eq:
  "filter_not_system ms = Returns rest \<Longrightarrow> rest = filter (\<lambda>m. \<not> is_system m) ms"
  by (induction ms arbitrary: rest) (auto simp: is_system_def split: outcome.splits if_splits)

text \<open>
  Claim C8. Whenever the handler calls the chat-completion model, the message list it
  sends is one object with the role \<open>system\<close> and the composed system prompt as its
  content, followed by the caller's messages whose role is not \<open>system\<close>, each
  unchanged and in the caller's order; that first object is the only element of the
  list with the role \<open>system\<close>. The composed prompt is the one built from the context
  the retrieval step returns for the content of the last user message.
\<close>

theorem final_messages_shape:
  assumes "CompletionCall m fm \<in> set (snd (chat sv db body))"
  shows "\<exists>ms u.
           messages body = JArr ms \<and> find_user (rev ms) = Returns u
           \<and> fm = JObj [(''role'', JStr ''system''),
                        (''content'', JStr (system_prompt (fst (retrieve sv db (last_content u)))))]
                    # filter (\<lambda>x. \<not> is_system x) ms
           \<and> filter is_system fm = [hd fm]"
proof -
  from assms obtain ms where ms: "messages body = JArr ms" and k: "key_set sv"
    by (cases "messages body") (auto simp: chat_def split: if_splits)
  from assms ms k obtain u where lu: "find_user (rev ms) = Returns u"
    by (cases "find_user (rev ms)") (auto simp: chat_def)
  from assms ms k lu obtain rest where rest: "filter_not_system ms = Returns rest"
    by (cases "filter_not_system ms")
       (auto simp: chat_def Let_def retrieve_def split: if_splits prod.splits outcome.splits)
  from assms ms k lu rest
  have "fm = JObj [(''role'', JStr ''system''),
                   (''content'', JStr (system_prompt (fst (retrieve sv db (last_content u)))))]
               # rest"
    by (auto simp: chat_def Let_def retrieve_def split: if_splits prod.splits outcome.splits)
  with filter_not_system_eq [OF rest] ms lu show ?thesis
    by (auto simp: is_system_def)
qed

theorem final_messages_shape_witness:
  "CompletionCall (JStr ''gpt-4'')
     [message ''system'' (join [CHR 0x0A, CHR 0x0A] base_parts), message ''user'' ''hi'',
      message ''assistant'' ''hello'', message ''user'' ''more'']
     \<in> set (snd (chat plain_services [] talk))
   \<and> (\<exists>ms u.
         messages talk = JArr ms \<and> find_user (rev ms) = Returns u
         \<and> [message ''system'' (join [CHR 0x0A, CHR 0x0A] base_parts), message ''user'' ''hi'',
             message ''assistant'' ''hello'', message ''user'' ''more'']
            = JObj [(''role'', JStr ''system''),
                    (''content'',
                     JStr (system_prompt (fst (retrieve plain_services [] (last_content u)))))]
              # filter (\<lambda>x. \<not> is_system x) ms
         \<and> filter is_system
              [message ''system'' (join [CHR 0x0A, CHR 0x0A] base_parts), message ''user'' ''hi'',
               message ''assistant'' ''hello'', message ''user'' ''more'']
            = [hd [message ''system'' (join [CHR 0x0A, CHR 0x0A] base_parts),
                   message ''user'' ''hi'', message ''assistant'' ''hello'',
                   message ''user'' ''more'']])"
proof -
  have h: "CompletionCall (JStr ''gpt-4'')
     [message ''system'' (join [CHR 0x0A, CHR 0x0A] base_parts), message ''user'' ''hi'',
      message ''assistant'' ''hello'', message ''user'' ''more'']
     \<in> set (snd (chat plain_services [] talk))"
    by (simp add: chat_def talk_def message_def last_content_def plain_fields
          retrieve_empty_store system_prompt_def Let_def)
  show ?thesis
    using h final_messages_shape [OF h] by blast
qed

section \<open>Retrieval failure\<close>

lemma filter_not_system_returns:
  "\<forall>x \<in> set ms. x \<noteq> JNull \<and> x \<noteq> JUndefined \<Longrightarrow>
   filter_not_system ms = Returns (filter (\<lambda>x. \<not> is_system x) ms)"
proof (induction ms)
  case Nil
  show ?case by simp
next
  case (Cons m ms)
  then have "filter_not_system ms = Returns (filter (\<lambda>x. \<not> is_system x) ms)"
    and "m \<noteq> JNull" "m \<noteq> JUndefined"
    by simp_all
  then show ?case
    by (cases m) (simp_all add: is_system_def)
qed

lemma retrieve_fails:
  "embeddings_create sv c = Throws \<or> \<not> db_ok sv \<Longrightarrow>
   fst (retrieve sv db c) = [] \<and> \<not> (\<exists>x \<in> set (snd (retrieve sv db c)). is_completion x)"
  by (auto simp: retrieve_def split: outcome.splits)

text \<open>
  Claim C2. Take a request that reaches the retrieval step: the API key is configured,
  \<open>messages\<close> is an array of messages (none of its elements is null), \<open>u\<close> is what
  the search for the last message of role \<open>user\<close> returns, and moderation does not
  flag its content. When the retrieval step fails (the embedding call throws, or the
  read of the store does; the ranking itself has no way to throw) and the call of the
  chat-completion model returns, the response is the normal reply with the text the
  model returned. The one call of the model carries, as its system message, the fixed
  parts of the prompt alone, with no block of retrieved documents, followed by the
  caller's messages that are not system messages.
\<close>

theorem retrieval_failure_not_fatal:
  assumes "key_set sv" and "messages body = JArr ms"
    and "\<forall>x \<in> set ms. x \<noteq> JNull \<and> x \<noteq> JUndefined"
    and "find_user (rev ms) = Returns u"
    and "moderations_create sv (last_content u) \<noteq> Returns (Some True)"
    and "embeddings_create sv (last_content u) = Throws \<or> \<not> db_ok sv"
    and "m = (if truthy (model body) then model body else JStr (MODEL sv))"
    and "fm = JObj [(''role'', JStr ''system''),
                    (''content'', JStr (join [CHR 0x0A, CHR 0x0A] base_parts))]
                # filter (\<lambda>x. \<not> is_system x) ms"
    and "completions_create sv m fm = Returns reply"
  shows "fst (chat sv db body) = Ok_reply (case reply of None \<Rightarrow> [] | Some t \<Rightarrow> t)
         \<and> filter is_completion (snd (chat sv db body)) = [CompletionCall m fm]"
proof -
  obtain ctx calls where r: "retrieve sv db (last_content u) = (ctx, calls)"
    by (cases "retrieve sv db (last_content u)")
  from retrieve_fails [OF assms(6), of db] r
  have c: "ctx = []" and n: "filter is_completion calls = []"
    by (simp_all add: filter_empty_conv)
  have p: "system_prompt [] = join [CHR 0x0A, CHR 0x0A] base_parts"
    by (simp add: system_prompt_def)
  have "chat sv db body =
          (Ok_reply (case reply of None \<Rightarrow> [] | Some t \<Rightarrow> t),
           ModerationCall (last_content u) # calls @ [CompletionCall m fm])"
    using assms(1,2,4,5,9) filter_not_system_returns [OF assms(3)]
    by (simp add: chat_def r c p Let_def flip: assms(7) assms(8))
  then show ?thesis
    by (simp add: n)
qed

theorem retrieval_failure_not_fatal_witness:
  "key_set offline_services
   \<and> messages talk = JArr [message ''system'' ''be rude'', message ''user'' ''hi'',
                            message ''assistant'' ''hello'', message ''user'' ''more'']
   \<and> list_all (\<lambda>x. x \<noteq> JNull \<and> x \<noteq> JUndefined)
        [message ''system'' ''be rude'', message ''user'' ''hi'',
         message ''assistant'' ''hello'', message ''user'' ''more'']
   \<and> find_user (rev [message ''system'' ''be rude'', message ''user'' ''hi'',
                      message ''assistant'' ''hello'', message ''user'' ''more''])
       = Returns (message ''user'' ''more'')
   \<and> moderations_create offline_services (last_content (message ''user'' ''more''))
       \<noteq> Returns (Some True)
   \<and> embeddings_create offline_services (last_content (message ''user'' ''more'')) = Throws
   \<and> completions_create offline_services (JStr ''gpt-4'')
        [message ''system'' (join [CHR 0x0A, CHR 0x0A] base_parts), message ''user'' ''hi'',
         message ''assistant'' ''hello'', message ''user'' ''more'']
       = Returns (Some ''hello'')
   \<and> fst (chat offline_services [] talk) = Ok_reply ''hello''
   \<and> filter is_completion (snd (chat offline_services [] talk))
       = [CompletionCall (JStr ''gpt-4'')
            [message ''system'' (join [CHR 0x0A, CHR 0x0A] base_parts), message ''user'' ''hi'',
             message ''assistant'' ''hello'', message ''user'' ''more'']]"
proof -
  let ?ms = "[message ''system'' ''be rude'', message ''user'' ''hi'',
              message ''assistant'' ''hello'', message ''user'' ''more'']"
  let ?fm = "[message ''system'' (join [CHR 0x0A, CHR 0x0A] base_parts), message ''user'' ''hi'',
              message ''assistant'' ''hello'', message ''user'' ''more'']"
  have h2: "messages talk = JArr ?ms"
    by (simp add: talk_def)
  have h3: "\<forall>x \<in> set ?ms. x \<noteq> JNull \<and> x \<noteq> JUndefined"
    by (simp add: message_def)
  have h4: "find_user (rev ?ms) = Returns (message ''user'' ''more'')"
    by (simp add: message_def)
  have h5: "moderations_create offline_services (last_content (message ''user'' ''more''))
              \<noteq> Returns (Some True)"
    by (simp add: offline_fields)
  have h6: "embeddings_create offline_services (last_content (message ''user'' ''more'')) = Throws
              \<or> \<not> db_ok offline_services"
    by (simp add: offline_fields)
  have h7: "JStr ''gpt-4'' = (if truthy (model talk) then model talk else JStr (MODEL offline_services))"
    by (simp add: talk_def offline_fields)
  have h8: "?fm = JObj [(''role'', JStr ''system''),
                        (''content'', JStr (join [CHR 0x0A, CHR 0x0A] base_parts))]
                    # filter (\<lambda>x. \<not> is_system x) ?ms"
    by (simp add: message_def is_system_def)
  have h9: "completions_create offline_services (JStr ''gpt-4'') ?fm = Returns (Some ''hello'')"
    by (simp add: offline_fields)
  show ?thesis
    using h2 h3 h4 h5 h9 offline_fields
      retrieval_failure_not_fatal [OF offline_fields(1) h2 h3 h4 h5 h6 h7 h8 h9, of "[]"]
    by (simp add: list_all_iff)
qed

text \<open>
  The two hypotheses on the rest of the request keep apart the faults that are not the
  retrieval step's own. A null element of \<open>messages\<close> makes the filter of step 4
  throw, and a model call that throws is answered with status 500; both happen just as
  well when the retrieval step succeeds.
\<close>

lemma faults_outside_retrieval:
  "chat plain_services [] \<lparr>messages = JArr [JNull, message ''user'' ''hi''], model = JUndefined\<rparr>
     = (Failure 500 ''Internal server error'',
        [ModerationCall (JStr ''hi''), EmbeddingCall (JStr ''hi''), StoreRead])"
  "fst (chat (plain_services\<lparr>completions_create := (\<lambda>m fm. Throws)\<rparr>) [] talk)
     = Failure 500 ''Internal server error''"
  by (simp_all add: chat_def talk_def message_def last_content_def plain_services_def
        retrieve_def top_matches_Nil context_text_def Let_def)

section \<open>Adding a document\<close>

text \<open>
  Claim C6. An add request whose content is the empty string or is not a string is
  answered with status 400 and leaves the store as it was.
\<close>

theorem bad_content_rejected:
  assumes "content body = JStr [] \<or> \<not> isString (content body)"
  shows "fst (add_doc sv now db body) = Failure 400 ''content is required''
         \<and> client_error (fst (add_doc sv now db body))
         \<and> snd (add_doc sv now db body) = db"
  using assms by (cases "content body") (auto simp: add_doc_def client_error_def)

theorem bad_content_rejected_witness:
  "(content \<lparr>title = JStr ''note'', content = JStr []\<rparr> = JStr []
      \<or> \<not> isString (content \<lparr>title = JStr ''note'', content = JStr []\<rparr>))
   \<and> fst (add_doc plain_services 7 [] \<lparr>title = JStr ''note'', content = JStr []\<rparr>)
       = Failure 400 ''content is required''
   \<and> client_error (fst (add_doc plain_services 7 [] \<lparr>title = JStr ''note'', content = JStr []\<rparr>))
   \<and> snd (add_doc plain_services 7 [] \<lparr>title = JStr ''note'', content = JStr []\<rparr>) = []"
  using bad_content_rejected
          [of "\<lparr>title = JStr ''note'', content = JStr []\<rparr>" plain_services 7 "[]"]
  by (simp add: client_error_def)


text \<open>
  The title is bound as the driver binds it: an array of one text binds that text, and
  the add succeeds with it as the title.
\<close>

lemma one_element_title:
  "add_doc plain_services 7 [] \<lparr>title = JArr [JStr ''t''], content = JStr ''c''\<rparr>
     = (Ok_added 1, [\<lparr>row_id = 1, row_title = Some ''t'', row_content = ''c'',
                      row_embedding = Some [Fin 1], created_at = 7\<rparr>])"
  "fst (add_doc plain_services 7 [] \<lparr>title = JArr [], content = JStr ''c''\<rparr>)
     = Failure 500 ''failed to add document''"
  by (simp_all add: add_doc_def plain_fields next_rowid_def)

section \<open>Zero vectors\<close>

text \<open>
  Claim C4. When all components of either vector are zero, or more generally when the
  norm the code computes for either vector is zero, \<open>cosineSim\<close> returns 0. And when
  the code reaches its division, the divisor \<open>na * nb\<close> is not zero: a nonzero
  binary64 norm is at least \<open>2 powi (- 537)\<close>, so the product of two of them does
  not underflow to zero.
\<close>

theorem zero_magnitude_gives_zero:
  "((\<forall>x \<in> set a. x = Fin 0) \<or> (\<forall>x \<in> set b. x = Fin 0)
      \<or> norm_js a = Fin 0 \<or> norm_js b = Fin 0
      \<longrightarrow> cosineSim a b = Fin 0)
   \<and> (divides c d \<longrightarrow> divisor c d \<noteq> Fin 0)"
proof (intro conjI impI)
  assume "(\<forall>x \<in> set a. x = Fin 0) \<or> (\<forall>x \<in> set b. x = Fin 0)
            \<or> norm_js a = Fin 0 \<or> norm_js b = Fin 0"
  then have "norm_js a = Fin 0 \<or> norm_js b = Fin 0"
    using norm_js_zero [of a] norm_js_zero [of b] by blast
  then show "cosineSim a b = Fin 0"
    by (simp add: cosineSim_def cosineSim_in_def norm_js_def Let_def)
next
  assume "divides c d"
  then show "divisor c d \<noteq> Fin 0" by (rule divisor_nonzero)
qed

theorem zero_magnitude_gives_zero_witness:
  "list_all (\<lambda>x. x = Fin 0) [Fin 0, Fin 0] \<and> cosineSim [Fin 0, Fin 0] [Fin 1] = Fin 0
   \<and> divides [Fin 1] [Fin 1] \<and> divisor [Fin 1] [Fin 1] \<noteq> Fin 0"
proof -
  have d: "divides [Fin 1] [Fin 1]"
    by (simp add: divides_def eval_simps)
  show ?thesis
    using d zero_magnitude_gives_zero [of "[Fin 0, Fin 0]" "[Fin 1]" "[Fin 1]" "[Fin 1]"]
    by simp
qed

section \<open>Listing after an add\<close>

lemma stable_sort_snoc_first:
  "\<forall>y \<in> set xs. before x y \<Longrightarrow> stable_sort before (xs @ [x]) = x # stable_sort before xs"
  by (induction xs) auto

lemma length_substr800: "length (substr800 s) \<le> 800"
  by (simp add: substr800_def)

lemma snippet_summarise: "length (snippet (summarise r)) \<le> 800"
  by (simp add: summarise_def length_substr800)

lemma snippet_stops_at_nul:
  "substr800 (''ab'' @ [CHR 0x00] @ ''cd'') = ''ab''"
  by (simp add: substr800_def)

lemma add_doc_success:
  assumes "add_doc sv now db body = (Ok_added i, db')"
  shows "\<exists>str t e. content body = JStr str \<and> i = next_rowid db
           \<and> db' = db @ [\<lparr>row_id = i, row_title = t, row_content = str,
                             row_embedding = Some e, created_at = now\<rparr>]"
  using assms
  by (auto simp: add_doc_def split: if_splits json.splits outcome.splits)

text \<open>
  When the clock of the store has moved on since the last row was written, the listing
  is as the specification has it: after a successful add whose timestamp is later than
  the \<open>created_at\<close> of every row already stored, the next list operation that
  succeeds returns the new document first, its snippet being what \<open>substr\<close> makes
  of its content; and every snippet of every listing has at most 800 characters.
\<close>

lemma later_document_listed_first:
  assumes "add_doc sv now db body = (Ok_added i, db')"
    and "\<forall>r \<in> set db. created_at r < now"
    and "db_ok sv'"
  shows "\<exists>s rest str.
           list_docs sv' db' = Ok_list (s # rest) \<and> sum_id s = i
           \<and> content body = JStr str \<and> snippet s = substr800 str"
proof -
  from add_doc_success [OF assms(1)] obtain str t e where
    c: "content body = JStr str" and
    d: "db' = db @ [\<lparr>row_id = i, row_title = t, row_content = str,
                      row_embedding = Some e, created_at = now\<rparr>]"
    by blast
  let ?new = "\<lparr>row_id = i, row_title = t, row_content = str,
               row_embedding = Some e, created_at = now\<rparr>"
  from assms(2) have "\<forall>y \<in> set db. newer ?new y"
    by (simp add: newer_def)
  then have "stable_sort newer db' = ?new # stable_sort newer db"
    unfolding d by (rule stable_sort_snoc_first)
  with assms(3) have l: "list_docs sv' db' = Ok_list (summarise ?new # map summarise (stable_sort newer db))"
    by (simp add: list_docs_def)
  with c show ?thesis
    by (simp add: summarise_def)
qed

lemma listed_snippets_short:
  "list_docs sv db = Ok_list rows \<Longrightarrow> \<forall>x \<in> set rows. length (snippet x) \<le> 800"
  by (auto simp: list_docs_def snippet_summarise split: if_splits)

text \<open>
  Claim C7. The claim has the document just added come first in the next listing, for
  every state of the store. The listing is ordered by \<open>created_at\<close> alone, and
  \<open>CURRENT_TIMESTAMP\<close> counts whole seconds: a document added in the same second as
  the one before it ties with it, and the store returns tied rows in the order of their
  ids. Here the store holds document 1, written in second 5; document 2 is added in that
  same second, the add succeeds, and the listing that follows is 1, 2: the new document
  comes last.
\<close>

theorem same_second_listed_last:
  "created_at old_row = 5
   \<and> add_doc plain_services 5 [old_row] second_doc
       = (Ok_added 2, [old_row, \<lparr>row_id = 2, row_title = None, row_content = ''second'',
                                 row_embedding = Some [Fin 1], created_at = 5\<rparr>])
   \<and> listed_ids (list_docs plain_services (snd (add_doc plain_services 5 [old_row] second_doc)))
       = [1, 2]"
  by (simp add: add_doc_def second_doc_def plain_fields next_rowid_def old_row_def
        list_docs_def newer_def summarise_def)

theorem same_second_listed_last_witness:
  "hd (listed_ids (list_docs plain_services
         (snd (add_doc plain_services 5 [old_row] second_doc)))) \<noteq> 2"
proof -
  from same_second_listed_last
  have "listed_ids (list_docs plain_services
          (snd (add_doc plain_services 5 [old_row] second_doc))) = [1, 2]"
    by blast
  then show ?thesis
    by (simp only: list.sel)
qed

section \<open>The ranking\<close>

lemma sorts_before_iff:
  assumes "on_grid (score a)" and "on_grid (score b)" and "score a \<noteq> NaN" and "score b \<noteq> NaN"
  shows "sorts_before a b \<longleftrightarrow> fless (score b) (score a)"
  unfolding sorts_before_def compare_score_def using assms by (rule compare_doubles)

lemma sorted_scores:
  assumes "\<forall>s \<in> set xs. on_grid (score s) \<and> score s \<noteq> NaN"
  shows "sorted_wrt (\<lambda>a b. fgeq (score a) (score b)) (stable_sort sorts_before xs)"
proof -
  have iff: "sorts_before a b \<longleftrightarrow> fless (score b) (score a)" if "a \<in> set xs" "b \<in> set xs" for a b
    using assms that by (intro sorts_before_iff) auto
  have "sorted_wrt (\<lambda>a b. \<not> sorts_before b a) (stable_sort sorts_before xs)"
  proof (rule sorted_stable_sort)
    show "\<forall>a \<in> set xs. \<forall>b \<in> set xs. sorts_before a b \<longrightarrow> \<not> sorts_before b a"
      using iff fless_asym by blast
    show "\<forall>a \<in> set xs. \<forall>b \<in> set xs. \<forall>c \<in> set xs.
            \<not> sorts_before b a \<longrightarrow> \<not> sorts_before c b \<longrightarrow> \<not> sorts_before c a"
    proof (intro ballI impI)
      fix a b c
      assume m: "a \<in> set xs" "b \<in> set xs" "c \<in> set xs"
        and "\<not> sorts_before b a" "\<not> sorts_before c b"
      then have "\<not> fless (score a) (score b)" "\<not> fless (score b) (score c)"
        using iff by blast+
      moreover have "score a \<noteq> NaN" "score b \<noteq> NaN" "score c \<noteq> NaN"
        using assms m by blast+
      ultimately have "\<not> fless (score a) (score c)"
        by (intro fless_negtrans [of "score a" "score b" "score c"])
      with iff m show "\<not> sorts_before c a" by blast
    qed
  qed
  then show ?thesis
  proof (rule sorted_wrt_mono_rel [rotated])
    fix a b
    assume m: "a \<in> set (stable_sort sorts_before xs)" "b \<in> set (stable_sort sorts_before xs)"
      and n: "\<not> sorts_before b a"
    from m have m': "a \<in> set xs" "b \<in> set xs" by (simp_all add: set_stable_sort)
    with iff n have "\<not> fless (score a) (score b)" by blast
    moreover have "score a \<noteq> NaN" "score b \<noteq> NaN" using assms m' by blast+
    ultimately show "fgeq (score a) (score b)"
      using not_fless_fgeq [of "score a" "score b"] by blast
  qed
qed

lemma stable_scores:
  "filter (\<lambda>m. score m = v) (stable_sort sorts_before xs)
     = filter (\<lambda>m. score m = v) (xs :: scored list)"
proof (rule filter_stable_sort, intro ballI impI)
  fix x y :: scored
  assume "score x = v \<and> score y = v"
  then have "compare_score y x = fsub binary64 v v" by (simp add: compare_score_def)
  moreover have "\<not> fless (fsub binary64 v v) (Fin 0)"
    by (cases v) (simp_all add: fsub_def binary64_zero)
  ultimately show "\<not> sorts_before y x" by (simp add: sorts_before_def)
qed

lemma filter_above:
  "filter (\<lambda>m. fgreater (score m) t) (filter (\<lambda>m. score m = v) (ys :: scored list))
     = (if fgreater v t then filter (\<lambda>m. score m = v) ys else [])"
  by (induction ys) auto

text \<open>
  Claim C1, as amended. For every query vector and every store, the ranker returns at
  most 3 matches and every one of them has a score greater than 0.65. When none of the
  computed scores is NaN, the matches are in descending order of score, and the matches
  of any one score are, in storage order, the first stored documents of that score.
\<close>

theorem ranking_properties:
  "length (top_matches e q rows) \<le> 3
   \<and> (\<forall>m \<in> set (top_matches e q rows). fgreater (score m) threshold)
   \<and> ((\<forall>s \<in> set (score_rows q rows). score s \<noteq> NaN) \<longrightarrow>
        sorted_wrt (\<lambda>a b. fgeq (score a) (score b)) (top_matches e q rows)
        \<and> (\<forall>v. prefix (filter (\<lambda>m. score m = v) (top_matches e q rows))
                        (filter (\<lambda>m. score m = v) (score_rows q rows))))"
proof (intro conjI impI allI)
  have "length (top_matches e q rows) \<le> length (take 3 (array_sort e (score_rows q rows)))"
    unfolding top_matches_def by (rule length_filter_le)
  then show "length (top_matches e q rows) \<le> 3" by simp
next
  show "\<forall>m \<in> set (top_matches e q rows). fgreater (score m) threshold"
    by (simp add: top_matches_def)
next
  assume n: "\<forall>s \<in> set (score_rows q rows). score s \<noteq> NaN"
  then have "\<forall>s \<in> set (score_rows q rows). on_grid (score s) \<and> score s \<noteq> NaN"
    by (simp add: score_rows_on_grid)
  then have "sorted_wrt (\<lambda>a b. fgeq (score a) (score b))
               (stable_sort sorts_before (score_rows q rows))"
    by (rule sorted_scores)
  then show "sorted_wrt (\<lambda>a b. fgeq (score a) (score b)) (top_matches e q rows)"
    unfolding top_matches_def array_sort_consistent [OF n]
    by (intro sorted_wrt_filter sorted_wrt_take)
next
  fix v
  assume n: "\<forall>s \<in> set (score_rows q rows). score s \<noteq> NaN"
  let ?sorted = "stable_sort sorts_before (score_rows q rows)"
  have "filter (\<lambda>m. score m = v) (top_matches e q rows)
          = filter (\<lambda>m. fgreater (score m) threshold) (filter (\<lambda>m. score m = v) (take 3 ?sorted))"
    by (simp add: top_matches_def array_sort_consistent [OF n] conj_commute)
  also have "\<dots> = (if fgreater v threshold then filter (\<lambda>m. score m = v) (take 3 ?sorted) else [])"
    by (rule filter_above)
  finally have "prefix (filter (\<lambda>m. score m = v) (top_matches e q rows))
                  (filter (\<lambda>m. score m = v) (take 3 ?sorted))"
    by simp
  also have "prefix (filter (\<lambda>m. score m = v) (take 3 ?sorted)) (filter (\<lambda>m. score m = v) ?sorted)"
    by (intro filter_mono_prefix take_is_prefix)
  also have "filter (\<lambda>m. score m = v) ?sorted = filter (\<lambda>m. score m = v) (score_rows q rows)"
    by (rule stable_scores)
  finally show "prefix (filter (\<lambda>m. score m = v) (top_matches e q rows))
                  (filter (\<lambda>m. score m = v) (score_rows q rows))" .
qed

lemma query5_scores:
  "cosineSim query5 [Fin 3, Fin 2, Fin 1, Fin 1, Fin 1] = Fin (3 / 4)"
  "cosineSim query5 [Fin 1] = NaN"
  "cosineSim query5 [Fin 1, Fin 0, Fin 0, Fin 0, Fin 0] = Fin 1"
  by (simp_all add: query5_def eval_simps)

lemma clean_scores:
  "score_rows query5 clean_store =
     [\<lparr>s_id = 1, s_title = Some ''a'', s_content = ''alpha'', score = Fin (3 / 4)\<rparr>,
      \<lparr>s_id = 3, s_title = Some ''c'', s_content = ''gamma'', score = Fin 1\<rparr>]"
  by (simp add: clean_store_def doc_a_def doc_c_def query5_scores)

lemma mixed_scores:
  "score_rows query5 mixed_store =
     [\<lparr>s_id = 1, s_title = Some ''a'', s_content = ''alpha'', score = Fin (3 / 4)\<rparr>,
      \<lparr>s_id = 2, s_title = Some ''b'', s_content = ''beta'', score = NaN\<rparr>,
      \<lparr>s_id = 3, s_title = Some ''c'', s_content = ''gamma'', score = Fin 1\<rparr>]"
  by (simp add: mixed_store_def doc_a_def doc_b_def doc_c_def query5_scores)

lemma threshold_cmp:
  "fgreater (Fin (3 / 4)) threshold" "fgreater (Fin 1) threshold" "\<not> fgreater NaN threshold"
  by (simp_all add: fgreater_def threshold_value)

text \<open>
  The claim as written holds for every collection of stored vectors. A stored vector
  shorter than the query scores NaN; the comparison function then answers NaN, which
  the sort takes for "equal": the three scores 0.75, NaN, 1 are one ascending run to
  it, nothing is moved, and the document of score 0.75 stays in front of the document
  of score 1.
\<close>

theorem nan_score_breaks_order:
  "map score (top_matches (long_sort plain_services) query5 mixed_store)
     = [Fin (3 / 4), Fin 1]
   \<and> \<not> sorted_wrt (\<lambda>a b. fgeq (score a) (score b))
         (top_matches (long_sort plain_services) query5 mixed_store)"
  by (simp add: top_matches_def array_sort_def short_sort_def count_run_def mixed_scores
        sorts_before_def compare_score_def fsub_def threshold_cmp)

theorem ranking_properties_witness:
  "list_all (\<lambda>s. score s \<noteq> NaN) (score_rows query5 clean_store)
   \<and> length (top_matches (long_sort plain_services) query5 clean_store) \<le> 3
   \<and> list_all (\<lambda>m. fgreater (score m) threshold)
        (top_matches (long_sort plain_services) query5 clean_store)
   \<and> sorted_wrt (\<lambda>a b. fgeq (score a) (score b))
        (top_matches (long_sort plain_services) query5 clean_store)
   \<and> prefix (filter (\<lambda>m. score m = Fin 1)
               (top_matches (long_sort plain_services) query5 clean_store))
            (filter (\<lambda>m. score m = Fin 1) (score_rows query5 clean_store))"
proof -
  have h: "\<forall>s \<in> set (score_rows query5 clean_store). score s \<noteq> NaN"
    by (simp add: clean_scores)
  show ?thesis
    using h ranking_properties [of "long_sort plain_services" query5 clean_store]
    by (simp add: list_all_iff)
qed

lemma bsearch_before:
  "left < right \<Longrightarrow> before pivot (xs ! (left + (right - left) div 2)) \<Longrightarrow>
   bsearch before pivot xs left right
     = bsearch before pivot xs left (left + (right - left) div 2)"
  by (subst bsearch.simps) (simp add: Let_def)

lemma bsearch_after:
  "left < right \<Longrightarrow> \<not> before pivot (xs ! (left + (right - left) div 2)) \<Longrightarrow>
   bsearch before pivot xs left right
     = bsearch before pivot xs (left + (right - left) div 2 + 1) right"
  by (subst bsearch.simps) (simp add: Let_def)

lemma bsearch_done: "\<not> left < right \<Longrightarrow> bsearch before pivot xs left right = left"
  by (subst bsearch.simps) simp

lemma late_scores:
  "score_rows query5 late_store =
     [\<lparr>s_id = 1, s_title = Some ''a'', s_content = ''alpha'', score = Fin (3 / 4)\<rparr>,
      \<lparr>s_id = 2, s_title = Some ''c'', s_content = ''gamma'', score = Fin 1\<rparr>,
      \<lparr>s_id = 3, s_title = Some ''b'', s_content = ''beta'', score = NaN\<rparr>,
      \<lparr>s_id = 4, s_title = Some ''c'', s_content = ''gamma'', score = Fin 1\<rparr>]"
  by (simp add: late_store_def doc_a_def doc_b_def doc_c_def query5_scores)

lemma compare_values:
  "score a = NaN \<or> score b = NaN \<Longrightarrow> \<not> sorts_before a b"
  "score a = Fin 1 \<Longrightarrow> score b = Fin (3 / 4) \<Longrightarrow> sorts_before a b"
  "score a = Fin 1 \<Longrightarrow> score b = Fin 1 \<Longrightarrow> \<not> sorts_before a b"
proof -
  show "score a = NaN \<or> score b = NaN \<Longrightarrow> \<not> sorts_before a b"
    by (cases "score a"; cases "score b")
       (auto simp: sorts_before_def compare_score_def fsub_def)
  have "binary64 (- (1 / 4)) = Fin (- (1 / 4))"
    by (rule binary64_exact [where m = "- 1" and e = "- 2"]) (simp_all add: power_int_minus)
  then show "score a = Fin 1 \<Longrightarrow> score b = Fin (3 / 4) \<Longrightarrow> sorts_before a b"
    by (simp add: sorts_before_def compare_score_def fsub_def)
  show "score a = Fin 1 \<Longrightarrow> score b = Fin 1 \<Longrightarrow> \<not> sorts_before a b"
    by (simp add: sorts_before_def compare_score_def fsub_def binary64_zero)
qed

lemma place_of_nan:
  "score p = NaN \<Longrightarrow> bsearch sorts_before p [x, y] 0 (Suc (Suc 0)) = Suc (Suc 0)"
proof -
  assume p: "score p = NaN"
  have "bsearch sorts_before p [x, y] 0 2 = 2"
    using p by (simp add: bsearch_after bsearch_done compare_values)
  then show ?thesis by (simp only: numeral_2_eq_2)
qed

lemma place_of_one:
  assumes "score p = Fin 1" and "score x = Fin 1" and "score y = Fin (3 / 4)"
  shows "bsearch sorts_before p [x, y, z] 0 (Suc (Suc (Suc 0))) = Suc 0"
proof -
  have "bsearch sorts_before p [x, y, z] 0 3 = 1"
    using assms by (simp add: bsearch_before bsearch_after bsearch_done compare_values)
  then show ?thesis by (simp only: numeral_3_eq_3 One_nat_def)
qed


text \<open>
  Where the NaN score comes after the first run, the insertion does move documents:
  of the scores 0.75, 1, NaN, 1 the first two are a descending run, the NaN is
  inserted after them, and the last document is inserted between the two; the matches
  are the documents 2, 4 and 1.
\<close>

lemma nan_score_after_run:
  "map s_id (top_matches e query5 late_store) = [2, 4, 1]"
  by (simp add: top_matches_def array_sort_def short_sort_def count_run_def late_scores
        compare_values place_of_nan place_of_one threshold_cmp)

section \<open>Vectors of different dimensions\<close>

lemma dot_prefix:
  assumes "length q \<le> length d"
  shows "dot q d = dot q (take (length q) d)"
  unfolding dot_def dot_in_def
  by (rule dot_loop_cong) (use assms in \<open>simp add: elem_def\<close>)

lemma dot_short: "length d < length q \<Longrightarrow> dot q d = NaN"
  unfolding dot_def dot_in_def by (rule dot_loop_short) simp_all

lemma cosineSim_unfold:
  "cosineSim q d =
     (if norm_js q = Fin 0 \<or> norm_js d = Fin 0 then Fin 0
      else fdiv binary64 (dot q d) (fmul binary64 (norm_js q) (norm_js d)))"
  by (simp add: cosineSim_def cosineSim_in_def norm_js_def dot_def Let_def)

lemma cosineSim_short:
  assumes "length d < length q"
  shows "cosineSim q d = (if norm_js q = Fin 0 \<or> norm_js d = Fin 0 then Fin 0 else NaN)"
  by (simp add: cosineSim_unfold dot_short [OF assms])

lemma threshold_positive: "\<not> fgreater (Fin 0) threshold" "\<not> fgreater NaN threshold"
  by (simp_all add: fgreater_def threshold_value)

lemma score_rows_origin:
  "m \<in> set (score_rows q rows) \<Longrightarrow>
   \<exists>r \<in> set rows. \<exists>e. row_embedding r = Some e \<and> s_id m = row_id r \<and> score m = cosineSim q e"
  by (induction rows) (auto split: option.splits)

lemma top_matches_subset: "set (top_matches e q rows) \<subseteq> set (score_rows q rows)"
proof -
  have "set (top_matches e q rows) \<subseteq> set (take 3 (array_sort e (score_rows q rows)))"
    by (simp add: top_matches_def)
  also have "\<dots> \<subseteq> set (array_sort e (score_rows q rows))"
    by (rule set_take_subset)
  finally show ?thesis by (simp add: set_array_sort)
qed

lemma short_row_not_selected:
  assumes "r \<in> set rows" and "row_embedding r = Some d" and "length d < length q"
    and "distinct (map row_id rows)"
  shows "row_id r \<notin> s_id ` set (top_matches e q rows)"
proof
  assume "row_id r \<in> s_id ` set (top_matches e q rows)"
  then obtain m where m: "m \<in> set (top_matches e q rows)" and i: "s_id m = row_id r"
    by auto
  from m have g: "fgreater (score m) threshold"
    by (simp add: top_matches_def)
  from m top_matches_subset have "m \<in> set (score_rows q rows)" by blast
  from score_rows_origin [OF this] obtain r' e where
    r': "r' \<in> set rows" "row_embedding r' = Some e" "s_id m = row_id r'" "score m = cosineSim q e"
    by blast
  from assms(4) have "inj_on row_id (set rows)" by (simp add: distinct_map)
  with r'(1,3) assms(1) i have "r' = r" by (auto dest: inj_onD)
  with r'(2,4) assms(2) have "score m = cosineSim q d" by simp
  with cosineSim_short [OF assms(3)] g threshold_positive show False
    by (auto split: if_splits)
qed

text \<open>
  Claim C10, as amended. \<open>dot(q, d)\<close> runs over the length of \<open>q\<close>, but
  \<open>norm(d)\<close> runs over all of \<open>d\<close>. If \<open>d\<close> is at least as long as \<open>q\<close>,
  the score is the dot product of \<open>q\<close> with the prefix of \<open>d\<close>, divided by the
  product of the norm of \<open>q\<close> and the norm of the whole of \<open>d\<close> (or 0 when a norm
  is zero). If \<open>d\<close> is shorter than \<open>q\<close>, the score is NaN, or 0 when a norm is
  zero; in both cases it does not pass the threshold, and in a store with distinct ids
  the document is not among the matches.
\<close>

theorem mismatched_dimensions:
  "(length q \<le> length d \<longrightarrow>
      cosineSim q d =
        (if norm_js q = Fin 0 \<or> norm_js d = Fin 0 then Fin 0
         else fdiv binary64 (dot q (take (length q) d)) (fmul binary64 (norm_js q) (norm_js d))))
   \<and> (length d' < length q' \<longrightarrow>
        cosineSim q' d' = (if norm_js q' = Fin 0 \<or> norm_js d' = Fin 0 then Fin 0 else NaN)
        \<and> \<not> fgreater (cosineSim q' d') threshold
        \<and> (\<forall>rows. \<forall>r \<in> set rows. row_embedding r = Some d' \<and> distinct (map row_id rows)
               \<longrightarrow> row_id r \<notin> s_id ` set (top_matches e q' rows)))"
proof (intro conjI impI)
  assume "length q \<le> length d"
  then show "cosineSim q d =
        (if norm_js q = Fin 0 \<or> norm_js d = Fin 0 then Fin 0
         else fdiv binary64 (dot q (take (length q) d)) (fmul binary64 (norm_js q) (norm_js d)))"
    using dot_prefix [of q d] by (simp add: cosineSim_unfold)
next
  assume s: "length d' < length q'"
  then show c: "cosineSim q' d' = (if norm_js q' = Fin 0 \<or> norm_js d' = Fin 0 then Fin 0 else NaN)"
    by (rule cosineSim_short)
  show "\<not> fgreater (cosineSim q' d') threshold"
    unfolding c using threshold_positive by simp
  show "\<forall>rows. \<forall>r \<in> set rows. row_embedding r = Some d' \<and> distinct (map row_id rows)
               \<longrightarrow> row_id r \<notin> s_id ` set (top_matches e q' rows)"
    using short_row_not_selected [OF _ _ s] by blast
qed

theorem mismatched_dimensions_witness:
  "length [Fin 1 :: jsnum] \<le> length [Fin 1, Fin 1, Fin 1, Fin 1 :: jsnum]
   \<and> cosineSim [Fin 1] [Fin 1, Fin 1, Fin 1, Fin 1] =
        fdiv binary64 (dot [Fin 1] (take (length [Fin 1 :: jsnum]) [Fin 1, Fin 1, Fin 1, Fin 1]))
          (fmul binary64 (norm_js [Fin 1]) (norm_js [Fin 1, Fin 1, Fin 1, Fin 1]))
   \<and> length [Fin 1 :: jsnum] < length query5
   \<and> cosineSim query5 [Fin 1] = NaN
   \<and> \<not> fgreater (cosineSim query5 [Fin 1]) threshold
   \<and> doc_b \<in> set mixed_store \<and> row_embedding doc_b = Some [Fin 1]
   \<and> distinct (map row_id mixed_store)
   \<and> row_id doc_b \<notin> s_id ` set (top_matches (long_sort plain_services) query5 mixed_store)"
proof -
  have n: "norm_js [Fin 1] = Fin 1" "norm_js [Fin 1, Fin 1, Fin 1, Fin 1] = Fin 2"
    "norm_js query5 = Fin 1"
    by (simp_all add: eval_simps query5_def)
  have l: "length [Fin 1 :: jsnum] \<le> length [Fin 1, Fin 1, Fin 1, Fin 1 :: jsnum]"
    "length [Fin 1 :: jsnum] < length query5"
    by (simp_all add: query5_def)
  have r: "doc_b \<in> set mixed_store" "row_embedding doc_b = Some [Fin 1]"
    "distinct (map row_id mixed_store)"
    by (simp_all add: mixed_store_def doc_a_def doc_b_def doc_c_def)
  show ?thesis
    using n l r
      mismatched_dimensions [of "[Fin 1]" "[Fin 1, Fin 1, Fin 1, Fin 1]" "[Fin 1]" query5
        "long_sort plain_services"]
    by auto
qed

text \<open>
  The claim as written gives a longer \<open>d\<close> the cosine similarity of \<open>q\<close> with its
  prefix, and a shorter \<open>d\<close> the score NaN. The norm of the whole of \<open>d\<close> makes the
  first 0.5 where the prefix gives 1, and the empty vector scores 0.
\<close>

theorem longer_vector_not_truncated:
  "cosineSim [Fin 1] [Fin 1, Fin 1, Fin 1, Fin 1] = Fin (1 / 2)
   \<and> cosineSim [Fin 1] (take (length [Fin 1 :: jsnum]) [Fin 1, Fin 1, Fin 1, Fin 1]) = Fin 1
   \<and> length ([] :: jsnum list) < length [Fin 1, Fin 1 :: jsnum]
   \<and> cosineSim [Fin 1, Fin 1] [] = Fin 0"
  by (simp add: eval_simps)

section \<open>The range of the score\<close>

lemma small_exact: "binary64 small = Fin small"
  by (rule binary64_exact [where m = 33 and e = "- 541"])
     (simp_all add: small_def power_int_minus field_simps)

lemma small_square: "binary64 (small * small) = Fin (p2 (- 1072))"
proof -
  have "binary64 (small * small) = Fin (of_int 4 * 2 powi (- 1074))"
    by (rule binary64_eval [where e = "- 1072"])
       (simp_all add: small_def power_int_minus field_simps)
  then show ?thesis
    by (simp add: p2_def power_int_minus)
qed

lemma p2_exact: "- 1074 \<le> k \<Longrightarrow> k \<le> 1023 \<Longrightarrow> binary64 (p2 k) = Fin (p2 k)"
proof -
  assume k: "- 1074 \<le> k" "k \<le> 1023"
  have "(2::real) powi k < 2 powi 1024"
    using k by (intro power_int_strict_increasing) simp_all
  then have "\<bar>p2 k\<bar> < 2 ^ 1024"
    by (simp add: p2_def zero_le_power_int)
  with k show ?thesis
    by (intro binary64_exact [where m = 1 and e = k]) (simp_all add: p2_def)
qed

lemma sqrt_p2: "sqrt (p2 (- 1072)) = p2 (- 536)"
proof (rule real_sqrt_unique)
  show "(p2 (- 536))\<^sup>2 = p2 (- 1072)"
    by (simp add: p2_def power2_eq_square flip: power_int_add)
  show "0 \<le> p2 (- 536)"
    by (simp add: p2_def zero_le_power_int)
qed

lemma p2_nonneg: "\<not> p2 k < 0" "p2 k \<noteq> 0"
  by (simp_all add: p2_def not_less zero_le_power_int)

lemma small_quotient: "binary64 (small / p2 (- 536)) = Fin (33 / 32)"
proof -
  have "small / p2 (- 536) = 33 / 32"
    by (simp add: small_def p2_def power_int_minus field_simps)
  moreover have "binary64 (33 / 32) = Fin (33 / 32)"
    by (rule binary64_exact [where m = 33 and e = "- 5"]) (simp_all add: power_int_minus)
  ultimately show ?thesis by (simp only:)
qed

lemma sqrt3_bounds:
  "(7800463371553962 - 1 / 2) / 2 ^ 52 < sqrt 3" "sqrt 3 < (7800463371553962 + 1 / 2) / 2 ^ 52"
  by (rule real_less_rsqrt, simp add: power2_eq_square)
     (rule real_less_lsqrt, simp_all add: power2_eq_square)

lemma sqrt3_rounds: "binary64 (sqrt 3) = Fin root3"
proof -
  have "1 \<le> sqrt 3" by simp
  moreover have "sqrt 3 < 2"
    by (rule real_less_lsqrt) simp_all
  ultimately have "binary64 (sqrt 3) = Fin (of_int 7800463371553962 * 2 powi (- 52))"
    using sqrt3_bounds
    by (intro binary64_eval [where e = 0]) (simp_all add: power_int_minus field_simps)
  then show ?thesis
    by (simp add: root3_def power_int_minus field_simps)
qed

lemma root3_square_rounds: "binary64 (root3 * root3) = Fin root3_squared"
proof -
  have "binary64 (root3 * root3) = Fin (of_int 6755399441055743 * 2 powi (- 51))"
    by (rule binary64_eval [where e = 1]) (simp_all add: root3_def power_int_minus field_simps)
  then show ?thesis
    by (simp add: root3_squared_def power_int_minus field_simps)
qed

lemma quotient_rounds:
  "binary64 (3 / root3_squared) = Fin (4503599627370497 / 4503599627370496)"
proof -
  have "binary64 (3 / root3_squared) = Fin (of_int 4503599627370497 * 2 powi (- 52))"
    by (rule binary64_eval [where e = 0])
       (simp_all add: root3_squared_def power_int_minus field_simps)
  then show ?thesis
    by (simp add: power_int_minus field_simps)
qed

lemma root3_nonzero: "root3 \<noteq> 0" "root3_squared \<noteq> 0"
  by (simp_all add: root3_def root3_squared_def)

lemma self_similarity:
  "cosineSim [Fin 1, Fin 1, Fin 1] [Fin 1, Fin 1, Fin 1]
     = Fin (4503599627370497 / 4503599627370496)"
  by (simp add: eval_simps sqrt3_rounds root3_square_rounds quotient_rounds root3_nonzero)

lemma sum_square_expansion:
  fixes f g :: "nat \<Rightarrow> real"
  shows "(\<Sum>k\<in>A. (f k * y - g k * d)\<^sup>2)
           = (\<Sum>k\<in>A. (f k)\<^sup>2) * y\<^sup>2 - 2 * (\<Sum>k\<in>A. f k * g k) * (y * d)
             + (\<Sum>k\<in>A. (g k)\<^sup>2) * d\<^sup>2"
proof -
  have e: "(f k * y - g k * d)\<^sup>2
             = (f k)\<^sup>2 * y\<^sup>2 - 2 * (f k * g k) * (y * d) + (g k)\<^sup>2 * d\<^sup>2" for k
    by (simp add: power2_eq_square algebra_simps)
  have "(\<Sum>k\<in>A. (f k * y - g k * d)\<^sup>2)
          = (\<Sum>k\<in>A. (f k)\<^sup>2 * y\<^sup>2) - (\<Sum>k\<in>A. 2 * (f k * g k) * (y * d))
            + (\<Sum>k\<in>A. (g k)\<^sup>2 * d\<^sup>2)"
    by (simp only: e sum.distrib sum_subtractf)
  then show ?thesis
    by (simp only: sum_distrib_left sum_distrib_right)
qed

lemma cauchy_schwarz_sum:
  fixes f g :: "nat \<Rightarrow> real"
  assumes "finite A"
  shows "(\<Sum>k\<in>A. f k * g k)\<^sup>2 \<le> (\<Sum>k\<in>A. (f k)\<^sup>2) * (\<Sum>k\<in>A. (g k)\<^sup>2)"
proof -
  define X where "X = (\<Sum>k\<in>A. (f k)\<^sup>2)"
  define Y where "Y = (\<Sum>k\<in>A. (g k)\<^sup>2)"
  define D where "D = (\<Sum>k\<in>A. f k * g k)"
  have Y0: "0 \<le> Y" unfolding Y_def by (intro sum_nonneg) simp
  have "(\<Sum>k\<in>A. (f k * Y - g k * D)\<^sup>2) = X * Y\<^sup>2 - 2 * D * (Y * D) + Y * D\<^sup>2"
    unfolding X_def Y_def D_def by (rule sum_square_expansion)
  also have "\<dots> = Y * (X * Y - D\<^sup>2)"
    by (simp only: power2_eq_square) algebra
  finally have "(\<Sum>k\<in>A. (f k * Y - g k * D)\<^sup>2) = Y * (X * Y - D\<^sup>2)" .
  moreover have "0 \<le> (\<Sum>k\<in>A. (f k * Y - g k * D)\<^sup>2)"
    by (intro sum_nonneg) simp
  ultimately have "0 \<le> Y * (X * Y - D\<^sup>2)" by simp
  show ?thesis
  proof (cases "Y = 0")
    case True
    then have "\<forall>k\<in>A. (g k)\<^sup>2 = 0"
      unfolding Y_def using assms by (simp add: sum_nonneg_eq_0_iff)
    then have "D = 0" unfolding D_def by simp
    with True show ?thesis by (simp add: X_def Y_def D_def)
  next
    case False
    with Y0 have "0 < Y" by simp
    with \<open>0 \<le> Y * (X * Y - D\<^sup>2)\<close> have "0 \<le> X * Y - D\<^sup>2"
      by (simp add: zero_le_mult_iff)
    then show ?thesis by (simp add: X_def Y_def D_def)
  qed
qed

lemma round_he_err: "\<bar>of_int (round_he y) - y\<bar> \<le> 1 / 2"
proof -
  have "of_int \<lfloor>y\<rfloor> \<le> y" "y < of_int \<lfloor>y\<rfloor> + 1" by linarith+
  then show ?thesis
    unfolding round_he_def Let_def by (auto simp: abs_le_iff)
qed

lemma binary64_error:
  assumes "x \<noteq> 0" and "\<bar>x\<bar> \<le> 2 ^ 1023"
  shows "\<exists>r. binary64 x = Fin r \<and> \<bar>r - x\<bar> \<le> ulp x / 2"
proof -
  define r where "r = of_int (round_he (x / ulp x)) * ulp x"
  have u: "0 < ulp x" by (rule ulp_pos)
  have "r - x = (of_int (round_he (x / ulp x)) - x / ulp x) * ulp x"
    using u by (simp add: r_def field_simps)
  then have "\<bar>r - x\<bar> = \<bar>of_int (round_he (x / ulp x)) - x / ulp x\<bar> * ulp x"
    using u by (simp add: abs_mult)
  also have "\<dots> \<le> 1 / 2 * ulp x"
    using u by (intro mult_right_mono round_he_err) simp
  finally have e: "\<bar>r - x\<bar> \<le> ulp x / 2" by simp
  have "\<bar>x\<bar> < 2 powi (1023 + 1)"
    using assms(2) by simp
  with assms(1) have "expo x \<le> 1023" by (rule expo_le)
  then have "ulp x \<le> 2 powi 971"
    unfolding ulp_def by (intro power_int_increasing) simp_all
  also have "\<dots> \<le> 2 powi 1023"
    by (intro power_int_increasing) simp_all
  finally have "ulp x \<le> 2 ^ 1023" by simp
  define A :: real where "A = 2 ^ 1023"
  have "\<bar>x\<bar> \<le> A" "ulp x \<le> A" "0 < A" "2 ^ 1024 = 2 * A"
    using assms(2) \<open>ulp x \<le> 2 ^ 1023\<close> by (simp_all add: A_def)
  with e have "\<bar>r\<bar> < 2 ^ 1024" by linarith
  then have "\<not> 2 ^ 1024 \<le> r" "\<not> r \<le> - (2 ^ 1024)" by linarith+
  with assms(1) have "binary64 x = Fin r"
    by (simp add: binary64_def Let_def r_def)
  with e show ?thesis by blast
qed

lemma binary64_relative:
  assumes "2 powi (- 1022) \<le> \<bar>x\<bar>" and "\<bar>x\<bar> \<le> 2 ^ 1023"
  shows "\<exists>r. binary64 x = Fin r \<and> \<bar>r - x\<bar> \<le> eps * \<bar>x\<bar>"
proof -
  have "(0::real) < 2 powi (- 1022)" by (simp add: zero_less_power_int)
  with assms(1) have x: "x \<noteq> 0" by auto
  from binary64_error [OF x assms(2)] obtain r where
    r: "binary64 x = Fin r" "\<bar>r - x\<bar> \<le> ulp x / 2" by blast
  from x assms(1) have "- 1022 \<le> expo x" by (rule expo_ge)
  then have "ulp x = 2 powi (expo x - 52)" by (simp add: ulp_def max_def)
  then have "ulp x / 2 = eps * 2 powi (expo x)"
    by (simp add: eps_def power_int_diff)
  also have "\<dots> \<le> eps * \<bar>x\<bar>"
    using expo_bounds [OF x] by (intro mult_left_mono) (simp_all add: eps_def)
  finally show ?thesis using r by auto
qed

lemma binary64_tiny:
  assumes "\<bar>x\<bar> < 2 powi (- 1022)"
  shows "\<exists>r. binary64 x = Fin r \<and> \<bar>r\<bar> \<le> 1"
proof (cases "x = 0")
  case True
  then show ?thesis by (simp add: binary64_zero)
next
  case False
  have p: "(2::real) powi (- 1022) \<le> 1"
    by (simp add: power_int_minus field_simps)
  with assms have "\<bar>x\<bar> \<le> 2 ^ 1023" by simp
  from binary64_error [OF False this] obtain r where
    r: "binary64 x = Fin r" "\<bar>r - x\<bar> \<le> ulp x / 2" by blast
  from assms have "\<bar>x\<bar> < 2 powi (- 1023 + 1)" by simp
  with False have "expo x \<le> - 1023" by (rule expo_le)
  then have "ulp x = 2 powi (- 1074)" by (simp add: ulp_def max_def)
  moreover have "(2::real) powi (- 1074) \<le> 1 / 2"
    by (simp add: power_int_minus field_simps)
  moreover have "(2::real) powi (- 1022) \<le> 1 / 2"
    by (simp add: power_int_minus field_simps)
  ultimately have "\<bar>r\<bar> \<le> 1" using r(2) assms by linarith
  with r(1) show ?thesis by blast
qed

lemma binary64_grid_exact:
  assumes "x * 2 ^ 1074 \<in> \<int>" and "\<bar>x\<bar> < 2 powi (- 1022)"
  shows "binary64 x = Fin x"
proof -
  from assms(1) obtain m where m: "x * 2 ^ 1074 = of_int m" by (auto elim: Ints_cases)
  then have x: "x = of_int m * 2 powi (- 1074)"
    by (simp add: power_int_minus field_simps)
  have "\<bar>of_int m :: real\<bar> = \<bar>x\<bar> * 2 ^ 1074"
    by (simp add: m [symmetric] abs_mult)
  also have "\<dots> < 2 powi (- 1022) * 2 ^ 1074"
    using assms(2) by (intro mult_strict_right_mono) simp_all
  also have "\<dots> = 2 ^ 52"
    by (simp add: power_int_minus field_simps)
  finally have "\<bar>of_int m :: real\<bar> < 2 ^ 52" .
  then have "\<bar>of_int m :: real\<bar> < of_int (2 ^ 53)" by simp
  then have "\<bar>m\<bar> < 2 ^ 53" by linarith
  moreover have "(2::real) powi (- 1022) \<le> 2 ^ 1024"
    by (simp add: power_int_minus field_simps)
  with assms(2) have "\<bar>x\<bar> < 2 ^ 1024" by simp
  ultimately show ?thesis
    using x by (intro binary64_exact [where m = m and e = "- 1074"]) simp_all
qed

lemma fadd_relative:
  assumes "on_grid (Fin a)" and "on_grid (Fin b)" and "\<bar>a + b\<bar> \<le> 2 ^ 1023"
  shows "\<exists>r. binary64 (a + b) = Fin r \<and> \<bar>r - (a + b)\<bar> \<le> eps * \<bar>a + b\<bar>"
proof (cases "\<bar>a + b\<bar> < 2 powi (- 1022)")
  case True
  from assms(1,2) have "a * 2 ^ 1074 + b * 2 ^ 1074 \<in> \<int>"
    by (simp add: on_grid_def)
  then have "(a + b) * 2 ^ 1074 \<in> \<int>"
    by (simp only: distrib_right)
  from binary64_grid_exact [OF this True] show ?thesis
    by (simp add: eps_def)
next
  case False
  then have "2 powi (- 1022) \<le> \<bar>a + b\<bar>" by simp
  then show ?thesis using assms(3) by (rule binary64_relative)
qed

lemma one_plus_power:
  fixes t :: real
  assumes "0 \<le> t" and "2 * real m * t \<le> 1"
  shows "(1 + t) ^ m \<le> 1 + 2 * real m * t"
  using assms(2)
proof (induction m)
  case 0
  show ?case by simp
next
  case (Suc m)
  have "2 * real m * t \<le> 2 * real (Suc m) * t"
    using assms(1) by (intro mult_right_mono) simp_all
  with Suc.prems have m: "2 * real m * t \<le> 1" by linarith
  then have "(1 + t) ^ m \<le> 1 + 2 * real m * t" by (rule Suc.IH)
  then have "(1 + t) * (1 + t) ^ m \<le> (1 + t) * (1 + 2 * real m * t)"
    using assms(1) by (intro mult_left_mono) simp_all
  also have "\<dots> = 1 + 2 * real m * t + t + (2 * real m * t) * t"
    by (simp add: algebra_simps)
  also have "\<dots> \<le> 1 + 2 * real m * t + t + 1 * t"
    using m assms(1) by (intro add_left_mono mult_right_mono)
  also have "\<dots> = 1 + 2 * real (Suc m) * t"
    by (simp add: algebra_simps)
  finally show ?case by simp
qed

lemma one_minus_power:
  fixes t :: real
  assumes "0 \<le> t" and "t \<le> 1"
  shows "1 - real m * t \<le> (1 - t) ^ m"
  using Bernoulli_inequality [of "- t" m] assms by simp

lemma eps_bounds: "0 < eps" "eps \<le> 1" "1 \<le> 1 + eps" "0 \<le> 1 - eps" "1 - eps \<le> 1"
  by (simp_all add: eps_def)

lemma dot_step_bounds:
  fixes x y s A :: real
  defines "p \<equiv> x * y"
  assumes normal: "p = 0 \<or> 2 powi (- 1022) \<le> \<bar>p\<bar>"
    and grid: "on_grid (Fin s)"
    and upper: "\<bar>s\<bar> \<le> (1 + eps) ^ (i + 1) * A"
    and A0: "0 \<le> A"
    and room: "(1 + eps) ^ (i + 1) * (A + \<bar>p\<bar>) \<le> 2 ^ 1023"
  shows "\<exists>r. fadd binary64 (Fin s) (fmul binary64 (Fin x) (Fin y)) = Fin r \<and> on_grid (Fin r)
            \<and> \<bar>r\<bar> \<le> (1 + eps) ^ (i + 2) * (A + \<bar>p\<bar>)
            \<and> (0 \<le> p \<longrightarrow> (1 - eps) ^ (i + 1) * A \<le> s
                 \<longrightarrow> (1 - eps) ^ (i + 2) * (A + \<bar>p\<bar>) \<le> r)"
proof -
  define c where "c = 1 + eps"
  define d where "d = 1 - eps"
  define C where "C = c ^ (i + 1)"
  define D where "D = d ^ (i + 1)"
  have c1: "1 \<le> c" and d0: "0 \<le> d" and d1: "d \<le> 1"
    using eps_bounds by (simp_all add: c_def d_def)
  have cC: "c \<le> C"
    unfolding C_def using c1 by (intro self_le_power) simp_all
  have C1: "1 \<le> C" using c1 cC by linarith
  have Dd: "D \<le> d"
    unfolding D_def using d0 d1 power_Suc_le_self [of d i] by simp
  have D0: "0 \<le> D"
    unfolding D_def using d0 by simp
  have up: "\<bar>s\<bar> \<le> C * A" and rm: "C * (A + \<bar>p\<bar>) \<le> 2 ^ 1023"
    using upper room by (simp_all add: C_def c_def)
  have "1 * \<bar>p\<bar> \<le> C * \<bar>p\<bar>"
    using C1 by (intro mult_right_mono) simp_all
  moreover have "0 \<le> C * A" using C1 A0 by simp
  ultimately have "\<bar>p\<bar> \<le> C * (A + \<bar>p\<bar>)"
    by (simp add: distrib_left)
  with rm have pb: "\<bar>p\<bar> \<le> 2 ^ 1023" by linarith
  have "\<exists>q. binary64 p = Fin q \<and> \<bar>q - p\<bar> \<le> eps * \<bar>p\<bar>"
  proof (cases "p = 0")
    case True
    then show ?thesis by (simp add: binary64_zero)
  next
    case False
    with normal have "2 powi (- 1022) \<le> \<bar>p\<bar>" by simp
    then show ?thesis using pb by (rule binary64_relative)
  qed
  then obtain q where q: "binary64 p = Fin q" and qe: "\<bar>q - p\<bar> \<le> eps * \<bar>p\<bar>"
    by blast
  have qg: "on_grid (Fin q)"
    using binary64_on_grid [of p] by (simp add: q)
  have cp: "c * \<bar>p\<bar> = \<bar>p\<bar> + eps * \<bar>p\<bar>" and dp: "d * p = p - eps * p"
    by (simp_all add: c_def d_def algebra_simps)
  have qa: "\<bar>q\<bar> \<le> c * \<bar>p\<bar>"
    using qe cp by linarith
  have "c * \<bar>p\<bar> \<le> C * \<bar>p\<bar>"
    using cC by (intro mult_right_mono) simp_all
  with qa up have sq: "\<bar>s + q\<bar> \<le> C * (A + \<bar>p\<bar>)"
    by (simp add: distrib_left)
  with rm have "\<bar>s + q\<bar> \<le> 2 ^ 1023" by linarith
  from fadd_relative [OF grid qg this] obtain r where
    r: "binary64 (s + q) = Fin r" and re: "\<bar>r - (s + q)\<bar> \<le> eps * \<bar>s + q\<bar>"
    by blast
  have rg: "on_grid (Fin r)"
    using binary64_on_grid [of "s + q"] by (simp add: r)
  have "c * \<bar>s + q\<bar> = \<bar>s + q\<bar> + eps * \<bar>s + q\<bar>"
    by (simp add: c_def algebra_simps)
  with re have "\<bar>r\<bar> \<le> c * \<bar>s + q\<bar>" by linarith
  also have "\<dots> \<le> c * (C * (A + \<bar>p\<bar>))"
    using sq c1 by (intro mult_left_mono) simp_all
  also have "\<dots> = c ^ (i + 2) * (A + \<bar>p\<bar>)"
    by (simp add: C_def)
  finally have ru: "\<bar>r\<bar> \<le> (1 + eps) ^ (i + 2) * (A + \<bar>p\<bar>)"
    by (simp add: c_def)
  have rl: "(1 - eps) ^ (i + 2) * (A + \<bar>p\<bar>) \<le> r"
    if p0: "0 \<le> p" and lo: "(1 - eps) ^ (i + 1) * A \<le> s"
  proof -
    have lo': "D * A \<le> s" using lo by (simp add: D_def d_def)
    have "0 \<le> eps * p" using eps_bounds p0 by simp
    have "\<bar>p\<bar> = p" using p0 by simp
    with qe have "p - eps * p \<le> q" by linarith
    then have qd: "d * p \<le> q" by (simp add: dp)
    have "D * p \<le> d * p"
      using Dd p0 by (intro mult_right_mono)
    with qd lo' have sl: "D * (A + p) \<le> s + q"
      by (simp add: distrib_left)
    have "0 \<le> D * (A + p)" using D0 A0 p0 by simp
    with sl have s0: "0 \<le> s + q" by linarith
    then have "\<bar>s + q\<bar> = s + q" by simp
    with re have "(s + q) - eps * (s + q) \<le> r" by linarith
    moreover have "d * (s + q) = (s + q) - eps * (s + q)"
      by (simp add: d_def algebra_simps)
    ultimately have "d * (s + q) \<le> r" by simp
    moreover have "d * (D * (A + p)) \<le> d * (s + q)"
      using sl d0 by (intro mult_left_mono)
    ultimately have "d * (D * (A + p)) \<le> r" by linarith
    moreover have "d ^ (i + 2) = d * D"
      by (simp add: D_def)
    then have "d ^ (i + 2) * (A + \<bar>p\<bar>) = d * (D * (A + p))"
      by (simp only: \<open>\<bar>p\<bar> = p\<close> mult.assoc)
    ultimately have "d ^ (i + 2) * (A + \<bar>p\<bar>) \<le> r" by linarith
    then show ?thesis unfolding d_def .
  qed
  have "fadd binary64 (Fin s) (fmul binary64 (Fin x) (Fin y)) = Fin r"
    using q r by (simp add: p_def)
  with rg ru rl show ?thesis by blast
qed

lemma dot_loop_bounds:
  fixes xs ys :: "real list"
  defines "P \<equiv> \<lambda>k. \<bar>xs ! k * ys ! k\<bar>"
  assumes len: "length ys = length xs"
    and normal: "\<forall>k<length xs. xs ! k * ys ! k = 0 \<or> 2 powi (- 1022) \<le> \<bar>xs ! k * ys ! k\<bar>"
    and total: "2 * (\<Sum>k<length xs. P k) \<le> 2 ^ 1023"
    and count: "2 * real (length xs + 1) * eps \<le> 1"
  shows "length xs - i = j \<Longrightarrow> i \<le> length xs \<Longrightarrow> on_grid (Fin s) \<Longrightarrow>
         \<bar>s\<bar> \<le> (1 + eps) ^ (i + 1) * (\<Sum>k<i. P k) \<Longrightarrow>
         ((\<forall>k<length xs. 0 \<le> xs ! k * ys ! k) \<longrightarrow> (1 - eps) ^ (i + 1) * (\<Sum>k<i. P k) \<le> s) \<Longrightarrow>
         \<exists>r. dot_loop binary64 (map Fin xs) (map Fin ys) i (Fin s) = Fin r
           \<and> \<bar>r\<bar> \<le> (1 + eps) ^ (length xs + 1) * (\<Sum>k<length xs. P k)
           \<and> ((\<forall>k<length xs. 0 \<le> xs ! k * ys ! k)
                \<longrightarrow> (1 - eps) ^ (length xs + 1) * (\<Sum>k<length xs. P k) \<le> r)"
proof (induction j arbitrary: i s)
  case 0
  then have "i = length xs" by simp
  with 0 show ?case by (simp add: dot_loop_done)
next
  case (Suc j)
  let ?n = "length xs"
  from Suc.prems(1) have i: "i < ?n" by simp
  have P0: "0 \<le> P k" for k by (simp add: P_def)
  have A0: "0 \<le> (\<Sum>k<i. P k)" by (intro sum_nonneg P0)
  have "(1 + eps) ^ (?n + 1) \<le> 1 + 2 * real (?n + 1) * eps"
    using eps_bounds count by (intro one_plus_power) simp_all
  with count have c2: "(1 + eps) ^ (?n + 1) \<le> 2" by linarith
  have "(1 + eps) ^ (i + 1) \<le> (1 + eps) ^ (?n + 1)"
    using i eps_bounds by (intro power_increasing) simp_all
  with c2 have C2: "(1 + eps) ^ (i + 1) \<le> 2" by linarith
  have A: "(\<Sum>k<i. P k) + P i = (\<Sum>k<Suc i. P k)" by simp
  have "(\<Sum>k<Suc i. P k) \<le> (\<Sum>k<?n. P k)"
    using i by (intro sum_mono2) (auto simp: P0)
  with A have An: "(\<Sum>k<i. P k) + P i \<le> (\<Sum>k<?n. P k)" by simp
  have "(1 + eps) ^ (i + 1) * ((\<Sum>k<i. P k) + P i) \<le> 2 * (\<Sum>k<?n. P k)"
    using C2 An A0 P0 [of i] by (intro mult_mono) simp_all
  with total have room: "(1 + eps) ^ (i + 1) * ((\<Sum>k<i. P k) + \<bar>xs ! i * ys ! i\<bar>) \<le> 2 ^ 1023"
    by (simp add: P_def)
  from normal i have nm: "xs ! i * ys ! i = 0 \<or> 2 powi (- 1022) \<le> \<bar>xs ! i * ys ! i\<bar>"
    by blast
  from dot_step_bounds [OF nm Suc.prems(3) Suc.prems(4) A0 room]
  obtain r where r: "fadd binary64 (Fin s) (fmul binary64 (Fin (xs ! i)) (Fin (ys ! i))) = Fin r"
    and rg: "on_grid (Fin r)"
    and ru: "\<bar>r\<bar> \<le> (1 + eps) ^ (i + 2) * ((\<Sum>k<i. P k) + \<bar>xs ! i * ys ! i\<bar>)"
    and rl: "0 \<le> xs ! i * ys ! i \<longrightarrow> (1 - eps) ^ (i + 1) * (\<Sum>k<i. P k) \<le> s
                 \<longrightarrow> (1 - eps) ^ (i + 2) * ((\<Sum>k<i. P k) + \<bar>xs ! i * ys ! i\<bar>) \<le> r"
    by blast
  have e: "i + 2 = (i + 1) + 1" by simp
  have s: "(\<Sum>k<i. P k) + \<bar>xs ! i * ys ! i\<bar> = (\<Sum>k<i + 1. P k)"
    by (simp add: P_def)
  have ru': "\<bar>r\<bar> \<le> (1 + eps) ^ ((i + 1) + 1) * (\<Sum>k<i + 1. P k)"
    using ru unfolding e s .
  have rl': "(\<forall>k<length xs. 0 \<le> xs ! k * ys ! k)
               \<longrightarrow> (1 - eps) ^ ((i + 1) + 1) * (\<Sum>k<i + 1. P k) \<le> r"
    using rl Suc.prems(5) i unfolding e s by blast
  have "length xs - (i + 1) = j" "i + 1 \<le> length xs"
    using Suc.prems(1) i by simp_all
  from Suc.IH [OF this rg ru' rl']
  obtain r' where "dot_loop binary64 (map Fin xs) (map Fin ys) (i + 1) (Fin r) = Fin r'"
    and "\<bar>r'\<bar> \<le> (1 + eps) ^ (length xs + 1) * (\<Sum>k<length xs. P k)"
    and "(\<forall>k<length xs. 0 \<le> xs ! k * ys ! k)
                \<longrightarrow> (1 - eps) ^ (length xs + 1) * (\<Sum>k<length xs. P k) \<le> r'"
    by blast
  moreover have "dot_loop binary64 (map Fin xs) (map Fin ys) i (Fin s)
                   = dot_loop binary64 (map Fin xs) (map Fin ys) (i + 1) (Fin r)"
    using i len r by (simp add: dot_loop_step elem_def)
  ultimately show ?case by auto
qed

lemma dot_bounds:
  fixes xs ys :: "real list"
  assumes len: "length ys = length xs"
    and normal: "\<forall>k<length xs. xs ! k * ys ! k = 0 \<or> 2 powi (- 1022) \<le> \<bar>xs ! k * ys ! k\<bar>"
    and total: "2 * (\<Sum>k<length xs. \<bar>xs ! k * ys ! k\<bar>) \<le> 2 ^ 1023"
    and count: "2 * real (length xs + 1) * eps \<le> 1"
  shows "\<exists>r. dot (map Fin xs) (map Fin ys) = Fin r
           \<and> \<bar>r\<bar> \<le> (1 + eps) ^ (length xs + 1) * (\<Sum>k<length xs. \<bar>xs ! k * ys ! k\<bar>)
           \<and> ((\<forall>k<length xs. 0 \<le> xs ! k * ys ! k)
                \<longrightarrow> (1 - eps) ^ (length xs + 1) * (\<Sum>k<length xs. \<bar>xs ! k * ys ! k\<bar>) \<le> r)"
  unfolding dot_def dot_in_def
  by (rule dot_loop_bounds [OF len normal total count, of 0 "length xs" 0])
     (simp_all add: on_grid_def)

lemma moderate_product:
  assumes "moderate x" and "moderate y"
  shows "(x * y = 0 \<or> 2 powi (- 1022) \<le> \<bar>x * y\<bar>) \<and> \<bar>x * y\<bar> \<le> 2 ^ 1000"
proof (cases "x = 0 \<or> y = 0")
  case True
  then show ?thesis by auto
next
  case False
  with assms have x: "1 / 2 ^ 500 \<le> \<bar>x\<bar>" "\<bar>x\<bar> \<le> 2 ^ 500"
    and y: "1 / 2 ^ 500 \<le> \<bar>y\<bar>" "\<bar>y\<bar> \<le> 2 ^ 500"
    by (auto simp: moderate_def)
  have "(1 / 2 ^ 500) * (1 / 2 ^ 500) \<le> \<bar>x\<bar> * \<bar>y\<bar>"
    using x(1) y(1) by (intro mult_mono) simp_all
  moreover have "(2::real) powi (- 1022) \<le> (1 / 2 ^ 500) * (1 / 2 ^ 500)"
    by (simp add: power_int_minus field_simps)
  ultimately have "2 powi (- 1022) \<le> \<bar>x\<bar> * \<bar>y\<bar>"
    by linarith
  then have l: "2 powi (- 1022) \<le> \<bar>x * y\<bar>"
    by (simp only: abs_mult)
  have "\<bar>x\<bar> * \<bar>y\<bar> \<le> 2 ^ 500 * 2 ^ 500"
    using x(2) y(2) by (intro mult_mono) simp_all
  also have "\<dots> = (2::real) ^ 1000"
    by (simp flip: power_add)
  finally have "\<bar>x * y\<bar> \<le> 2 ^ 1000"
    by (simp only: abs_mult)
  with l show ?thesis by blast
qed

lemma inverse_factor:
  assumes "0 \<le> x" and "(1 - eps) ^ m * x \<le> r"
  shows "x \<le> (1 + 2 * eps) ^ m * r"
proof -
  have "1 \<le> (1 - eps) * (1 + 2 * eps)"
    by (simp add: eps_def field_simps)
  then have "1 \<le> ((1 - eps) * (1 + 2 * eps)) ^ m"
    by (rule one_le_power)
  then have "1 * x \<le> ((1 - eps) * (1 + 2 * eps)) ^ m * x"
    using assms(1) by (intro mult_right_mono)
  also have "\<dots> = (1 + 2 * eps) ^ m * ((1 - eps) ^ m * x)"
    by (simp add: power_mult_distrib)
  also have "\<dots> \<le> (1 + 2 * eps) ^ m * r"
    using assms(2) eps_bounds by (intro mult_left_mono) simp_all
  finally show ?thesis by simp
qed

lemma sqrt_le_self: "1 \<le> t \<Longrightarrow> sqrt t \<le> t"
proof -
  assume t: "1 \<le> t"
  then have "t * 1 \<le> t * t" by (intro mult_left_mono) simp_all
  from real_sqrt_le_mono [OF this] t show ?thesis by simp
qed

lemma sum_bounded:
  fixes f :: "nat \<Rightarrow> real"
  assumes "\<forall>k<n. f k \<le> B"
  shows "(\<Sum>k<n. f k) \<le> real n * B"
  using sum_bounded_above [of "{..<n}" f B] assms by simp

lemma count_small: "n \<le> 2 ^ 16 \<Longrightarrow> 2 * real (n + 1) * eps \<le> 1"
proof -
  assume "n \<le> 2 ^ 16"
  then have "real n \<le> 2 ^ 16" by (metis of_nat_le_iff of_nat_numeral of_nat_power)
  then show ?thesis by (simp add: eps_def field_simps)
qed

lemma half_le_power: "n \<le> 2 ^ 16 \<Longrightarrow> 1 / 2 \<le> (1 - eps) ^ (n + 1)"
proof -
  assume n: "n \<le> 2 ^ 16"
  have "1 - real (n + 1) * eps \<le> (1 - eps) ^ (n + 1)"
    using eps_bounds by (intro one_minus_power) simp_all
  with count_small [OF n] show ?thesis by linarith
qed

lemma power_le_two: "n \<le> 2 ^ 16 \<Longrightarrow> (1 + eps) ^ (n + 1) \<le> 2"
proof -
  assume n: "n \<le> 2 ^ 16"
  have "(1 + eps) ^ (n + 1) \<le> 1 + 2 * real (n + 1) * eps"
    using eps_bounds count_small [OF n] by (intro one_plus_power) simp_all
  with count_small [OF n] show ?thesis by linarith
qed

lemma squares_total:
  fixes xs ys :: "real list"
  assumes "\<forall>x\<in>set xs. moderate x" and "\<forall>y\<in>set ys. moderate y"
    and "length ys = length xs" and "length xs \<le> 2 ^ 16"
  shows "(\<Sum>k<length xs. \<bar>xs ! k * ys ! k\<bar>) \<le> 2 ^ 1016"
proof -
  have "\<forall>k<length xs. \<bar>xs ! k * ys ! k\<bar> \<le> 2 ^ 1000"
    using assms(1,2,3) moderate_product by (metis nth_mem)
  then have "(\<Sum>k<length xs. \<bar>xs ! k * ys ! k\<bar>) \<le> real (length xs) * 2 ^ 1000"
    by (rule sum_bounded)
  also have "real (length xs) \<le> 2 ^ 16"
    using assms(4) by (metis of_nat_le_iff of_nat_numeral of_nat_power)
  then have "real (length xs) * 2 ^ 1000 \<le> 2 ^ 16 * 2 ^ 1000"
    by (intro mult_right_mono) simp_all
  also have "(2::real) ^ 16 * 2 ^ 1000 = 2 ^ 1016"
    by (simp flip: power_add)
  finally show ?thesis .
qed

lemma norm_bounds:
  fixes xs :: "real list"
  assumes range: "\<forall>x\<in>set xs. moderate x" and n: "length xs \<le> 2 ^ 16"
  shows "\<exists>a. norm_js (map Fin xs) = Fin a \<and> 0 \<le> a \<and> a \<le> 2 ^ 510
           \<and> (a \<noteq> 0 \<longrightarrow> 1 / 2 ^ 502 \<le> a)
           \<and> sqrt (\<Sum>k<length xs. (xs ! k)\<^sup>2) \<le> (1 + 2 * eps) ^ (length xs + 2) * a"
proof -
  define X where "X = (\<Sum>k<length xs. \<bar>xs ! k * xs ! k\<bar>)"
  define T where "T = 1 + 2 * eps"
  have X2: "(\<Sum>k<length xs. (xs ! k)\<^sup>2) = X"
    by (simp add: X_def power2_eq_square)
  have X0: "0 \<le> X" unfolding X_def by (intro sum_nonneg) simp
  have Xu: "X \<le> 2 ^ 1016"
    unfolding X_def using range range _ n by (rule squares_total) simp
  have T1: "1 \<le> T" using eps_bounds by (simp add: T_def)
  have normal: "\<forall>k<length xs. xs ! k * xs ! k = 0 \<or> 2 powi (- 1022) \<le> \<bar>xs ! k * xs ! k\<bar>"
    using range moderate_product by (metis nth_mem)
  have "(2::real) * 2 ^ 1016 \<le> 2 ^ 1023" by simp
  with Xu have total: "2 * (\<Sum>k<length xs. \<bar>xs ! k * xs ! k\<bar>) \<le> 2 ^ 1023"
    unfolding X_def by linarith
  have nn: "\<forall>k<length xs. 0 \<le> xs ! k * xs ! k" by simp
  from dot_bounds [OF _ normal total count_small [OF n]] nn
  obtain r where r: "dot (map Fin xs) (map Fin xs) = Fin r"
    and ru: "\<bar>r\<bar> \<le> (1 + eps) ^ (length xs + 1) * X"
    and rl: "(1 - eps) ^ (length xs + 1) * X \<le> r"
    unfolding X_def by blast
  have "0 \<le> (1 - eps) ^ (length xs + 1) * X"
    using X0 eps_bounds by simp
  with rl have r0: "0 \<le> r" by linarith
  have na: "norm_js (map Fin xs) = binary64 (sqrt r)"
    using r r0 by (simp add: norm_js_def norm_in_def dot_def not_less)
  show ?thesis
  proof (cases "X = 0")
    case True
    with ru r0 have "r = 0" by simp
    with na True X2 show ?thesis
      by (simp add: binary64_zero)
  next
    case False
    have "\<exists>k<length xs. xs ! k * xs ! k \<noteq> 0"
    proof (rule ccontr)
      assume "\<not> (\<exists>k<length xs. xs ! k * xs ! k \<noteq> 0)"
      then have "X = 0" unfolding X_def by simp
      with False show False by simp
    qed
    then obtain k where k: "k < length xs" "xs ! k * xs ! k \<noteq> 0"
      by blast
    then have "moderate (xs ! k)" "xs ! k \<noteq> 0"
      using range by simp_all
    then have "1 / 2 ^ 500 \<le> \<bar>xs ! k\<bar>" by (simp add: moderate_def)
    then have "(1 / 2 ^ 500) * (1 / 2 ^ 500) \<le> \<bar>xs ! k\<bar> * \<bar>xs ! k\<bar>"
      by (intro mult_mono) simp_all
    also have "\<dots> = \<bar>xs ! k * xs ! k\<bar>" by (simp only: abs_mult)
    also have "\<dots> \<le> X"
      unfolding X_def using k(1) by (intro member_le_sum) simp_all
    finally have Xl: "1 / 2 ^ 1000 \<le> X"
      by (simp flip: power_add)
    have hX: "1 / 2 * X \<le> (1 - eps) ^ (length xs + 1) * X"
      using half_le_power [OF n] X0 by (intro mult_right_mono)
    have "(1::real) / 2 ^ 1001 = 1 / 2 * (1 / 2 ^ 1000)" by simp
    also have "\<dots> \<le> 1 / 2 * X"
      using Xl by (intro mult_left_mono) simp_all
    also note hX
    also note rl
    finally have rlow: "1 / 2 ^ 1001 \<le> r" .
    have tX: "(1 + eps) ^ (length xs + 1) * X \<le> 2 * X"
      using power_le_two [OF n] X0 by (intro mult_right_mono)
    have "r \<le> \<bar>r\<bar>" by simp
    also note ru
    also note tX
    also have "2 * X \<le> 2 * 2 ^ 1016"
      using Xu by (intro mult_left_mono) simp_all
    also have "\<dots> = (2::real) ^ 1017" by simp
    finally have rup: "r \<le> 2 ^ 1017" .
    have su: "sqrt r \<le> 2 ^ 509"
    proof (rule real_le_lsqrt)
      have "(2::real) ^ 1017 \<le> (2 ^ 509)\<^sup>2" by simp
      with rup show "r \<le> (2 ^ 509)\<^sup>2" by (rule order_trans)
    qed simp
    have sl: "1 / 2 ^ 501 \<le> sqrt r"
    proof (rule real_le_rsqrt)
      have "((1::real) / 2 ^ 501)\<^sup>2 \<le> 1 / 2 ^ 1001"
        by (simp add: power2_eq_square)
      then show "(1 / 2 ^ 501)\<^sup>2 \<le> r" using rlow by (rule order_trans)
    qed
    have s0: "0 \<le> sqrt r" using r0 by simp
    then have sa: "\<bar>sqrt r\<bar> = sqrt r" by simp
    have "(2::real) powi (- 1022) \<le> 1 / 2 ^ 501"
      by (simp add: power_int_minus field_simps)
    then have n1: "2 powi (- 1022) \<le> \<bar>sqrt r\<bar>"
      unfolding sa using sl by (rule order_trans)
    have "(2::real) ^ 509 \<le> 2 ^ 1023" by simp
    with su have n2: "\<bar>sqrt r\<bar> \<le> 2 ^ 1023"
      unfolding sa by (rule order_trans)
    from binary64_relative [OF n1 n2] obtain a where
      a: "binary64 (sqrt r) = Fin a" and ae: "\<bar>a - sqrt r\<bar> \<le> eps * sqrt r"
      unfolding sa by blast
    define E where "E = eps * sqrt r"
    define S where "S = sqrt r"
    have "eps * S \<le> 1 / 2 * S"
      using s0 unfolding S_def by (intro mult_right_mono) (simp_all add: eps_def)
    then have e1: "E \<le> S / 2" by (simp add: E_def S_def)
    have ae': "\<bar>a - S\<bar> \<le> E" using ae by (simp add: E_def S_def)
    have "(1 - eps) * sqrt r = S - E" "(1 + eps) * sqrt r = S + E"
      by (simp_all add: algebra_simps E_def S_def)
    moreover have "S - E \<le> a" "a \<le> S + E"
      using ae' by linarith+
    ultimately have al: "(1 - eps) * sqrt r \<le> a" and au: "a \<le> (1 + eps) * sqrt r"
      by simp_all
    have "S / 2 \<le> a" "a \<le> 2 * S"
      using ae' e1 s0 unfolding S_def [symmetric] by linarith+
    then have h1: "1 / 2 * sqrt r \<le> a" and h2: "a \<le> 2 * sqrt r"
      by (simp_all add: S_def)
    have "(1::real) / 2 ^ 502 = 1 / 2 * (1 / 2 ^ 501)" by simp
    also have "\<dots> \<le> 1 / 2 * sqrt r"
      using sl by (intro mult_left_mono) simp_all
    also note h1
    finally have alow: "1 / 2 ^ 502 \<le> a" .
    note h2
    also have "2 * sqrt r \<le> 2 * 2 ^ 509"
      using su by (intro mult_left_mono) simp_all
    also have "\<dots> = (2::real) ^ 510" by simp
    finally have aup: "a \<le> 2 ^ 510" .
    have a0: "0 \<le> a" using h1 s0 by linarith
    have "X \<le> T ^ (length xs + 1) * r"
      unfolding T_def using X0 rl by (rule inverse_factor)
    then have "sqrt X \<le> sqrt (T ^ (length xs + 1) * r)"
      by (rule real_sqrt_le_mono)
    also have "\<dots> = sqrt (T ^ (length xs + 1)) * sqrt r"
      by (rule real_sqrt_mult)
    also have "\<dots> \<le> T ^ (length xs + 1) * sqrt r"
      using T1 s0 by (intro mult_right_mono sqrt_le_self one_le_power)
    also have "sqrt r \<le> T * a"
      unfolding T_def using s0 al inverse_factor [of "sqrt r" 1 a] by simp
    then have "T ^ (length xs + 1) * sqrt r \<le> T ^ (length xs + 1) * (T * a)"
      using T1 by (intro mult_left_mono) simp_all
    also have "\<dots> = T ^ (length xs + 2) * a" by simp
    finally have "sqrt X \<le> (1 + 2 * eps) ^ (length xs + 2) * a"
      by (simp add: T_def)
    moreover have "norm_js (map Fin xs) = Fin a"
      using na a by simp
    ultimately show ?thesis
      unfolding X2 using a0 alow aup by (intro exI [of _ a]) (simp only: simp_thms)
  qed
qed

lemma abs_dot_le_norms:
  fixes xs ys :: "real list"
  shows "(\<Sum>k<n. \<bar>xs ! k * ys ! k\<bar>)
           \<le> sqrt (\<Sum>k<n. (xs ! k)\<^sup>2) * sqrt (\<Sum>k<n. (ys ! k)\<^sup>2)"
proof -
  have "(\<Sum>k\<in>{..<n}. \<bar>xs ! k\<bar> * \<bar>ys ! k\<bar>)\<^sup>2
          \<le> (\<Sum>k\<in>{..<n}. \<bar>xs ! k\<bar>\<^sup>2) * (\<Sum>k\<in>{..<n}. \<bar>ys ! k\<bar>\<^sup>2)"
    by (rule cauchy_schwarz_sum) simp
  then have "(\<Sum>k<n. \<bar>xs ! k * ys ! k\<bar>)\<^sup>2
               \<le> (\<Sum>k<n. (xs ! k)\<^sup>2) * (\<Sum>k<n. (ys ! k)\<^sup>2)"
    by (simp add: abs_mult)
  then have "(\<Sum>k<n. \<bar>xs ! k * ys ! k\<bar>)
               \<le> sqrt ((\<Sum>k<n. (xs ! k)\<^sup>2) * (\<Sum>k<n. (ys ! k)\<^sup>2))"
    by (rule real_le_rsqrt)
  then show ?thesis by (simp only: real_sqrt_mult)
qed

lemma tolerance_bound:
  assumes "n \<le> 2 ^ 16"
  shows "(1 + 2 * eps) ^ (3 * n + 7) \<le> 1 + tolerance n" "1 + tolerance n \<le> 2"
proof -
  have r: "real n \<le> 2 ^ 16"
    using assms by (metis of_nat_le_iff of_nat_numeral of_nat_power)
  then have c: "2 * real (3 * n + 7) * (2 * eps) \<le> 1"
    by (simp add: eps_def field_simps)
  have "(1 + 2 * eps) ^ (3 * n + 7) \<le> 1 + 2 * real (3 * n + 7) * (2 * eps)"
    using eps_bounds c by (intro one_plus_power) simp_all
  also have "2 * real (3 * n + 7) * (2 * eps) = tolerance n"
    by (simp add: tolerance_def eps_def field_simps)
  finally show "(1 + 2 * eps) ^ (3 * n + 7) \<le> 1 + tolerance n" .
  show "1 + tolerance n \<le> 2"
    using r by (simp add: tolerance_def field_simps)
qed

lemma score_bound:
  fixes xs ys :: "real list"
  assumes len: "length ys = length xs"
    and range: "\<forall>x \<in> set xs \<union> set ys. moderate x"
    and n: "length xs \<le> 2 ^ 16"
  shows "\<exists>s. cosineSim (map Fin xs) (map Fin ys) = Fin s \<and> \<bar>s\<bar> \<le> 1 + tolerance (length xs)"
proof -
  define T where "T = 1 + 2 * eps"
  define m where "m = length xs"
  have T1: "1 \<le> T" using eps_bounds by (simp add: T_def)
  have T0: "0 \<le> T" using T1 by linarith
  have tol: "T ^ (3 * m + 7) \<le> 1 + tolerance m" "1 + tolerance m \<le> 2"
    unfolding T_def m_def using n by (rule tolerance_bound)+
  have rx: "\<forall>x\<in>set xs. moderate x" and ry: "\<forall>y\<in>set ys. moderate y"
    using range by simp_all
  have ny: "length ys \<le> 2 ^ 16" using n len by simp
  define X where "X = sqrt (\<Sum>k<m. (xs ! k)\<^sup>2)"
  define Y where "Y = sqrt (\<Sum>k<m. (ys ! k)\<^sup>2)"
  from norm_bounds [OF rx n] obtain a where
    a: "norm_js (map Fin xs) = Fin a" "0 \<le> a" "a \<le> 2 ^ 510" "a \<noteq> 0 \<longrightarrow> 1 / 2 ^ 502 \<le> a"
       "X \<le> T ^ (m + 2) * a"
    unfolding X_def T_def m_def by blast
  from norm_bounds [OF ry ny] obtain b where
    b: "norm_js (map Fin ys) = Fin b" "0 \<le> b" "b \<le> 2 ^ 510" "b \<noteq> 0 \<longrightarrow> 1 / 2 ^ 502 \<le> b"
       "Y \<le> T ^ (m + 2) * b"
    unfolding Y_def T_def m_def len by blast
  show ?thesis
  proof (cases "a = 0 \<or> b = 0")
    case True
    then have "cosineSim (map Fin xs) (map Fin ys) = Fin 0"
      using a(1) b(1) by (auto simp: cosineSim_unfold)
    moreover have "0 \<le> tolerance m" by (simp add: tolerance_def)
    ultimately show ?thesis by (simp add: m_def)
  next
    case False
    with a b have al: "1 / 2 ^ 502 \<le> a" and bl: "1 / 2 ^ 502 \<le> b" by simp_all
    have "(1 / 2 ^ 502) * (1 / 2 ^ 502) \<le> a * b"
      using al bl by (intro mult_mono) simp_all
    moreover have "(2::real) powi (- 1022) \<le> (1 / 2 ^ 502) * (1 / 2 ^ 502)"
      by (simp add: power_int_minus field_simps)
    ultimately have l: "2 powi (- 1022) \<le> a * b" by (rule order_trans [rotated])
    have ab0: "0 \<le> a * b" using a(2) b(2) by simp
    then have aba: "\<bar>a * b\<bar> = a * b" by simp
    have "a * b \<le> 2 ^ 510 * 2 ^ 510"
      using a(2,3) b(2,3) by (intro mult_mono) simp_all
    also have "\<dots> \<le> (2::real) ^ 1023" by simp
    finally have u: "a * b \<le> 2 ^ 1023" .
    from binary64_relative [of "a * b"] l u obtain c where
      c: "binary64 (a * b) = Fin c" and ce: "\<bar>c - a * b\<bar> \<le> eps * (a * b)"
      unfolding aba by blast
    define E where "E = eps * (a * b)"
    define F where "F = a * b"
    have "\<bar>c - F\<bar> \<le> E" using ce by (simp add: E_def F_def)
    then have "F - E \<le> c" by linarith
    moreover have "(1 - eps) ^ 1 * (a * b) = F - E"
      by (simp add: E_def F_def algebra_simps)
    ultimately have "(1 - eps) ^ 1 * (a * b) \<le> c" by simp
    with ab0 have "a * b \<le> (1 + 2 * eps) ^ 1 * c" by (rule inverse_factor)
    then have abc: "a * b \<le> T * c" by (simp add: T_def)
    have "0 < a * b" using al bl by (intro mult_pos_pos) (simp_all add: less_le_trans [rotated])
    with abc T1 have c0: "0 < c"
      by (metis T0 less_le_trans mult_nonneg_nonpos not_le order.strict_iff_not)
    have normal: "\<forall>k<length xs. xs ! k * ys ! k = 0 \<or> 2 powi (- 1022) \<le> \<bar>xs ! k * ys ! k\<bar>"
      using rx ry len moderate_product by (metis nth_mem)
    have "(\<Sum>k<length xs. \<bar>xs ! k * ys ! k\<bar>) \<le> 2 ^ 1016"
      using rx ry len n by (rule squares_total)
    moreover have "(2::real) * 2 ^ 1016 \<le> 2 ^ 1023" by simp
    ultimately have total: "2 * (\<Sum>k<length xs. \<bar>xs ! k * ys ! k\<bar>) \<le> 2 ^ 1023"
      by linarith
    define A where "A = (\<Sum>k<m. \<bar>xs ! k * ys ! k\<bar>)"
    from dot_bounds [OF len normal total count_small [OF n]] obtain d where
      d: "dot (map Fin xs) (map Fin ys) = Fin d" and du: "\<bar>d\<bar> \<le> (1 + eps) ^ (m + 1) * A"
      unfolding A_def m_def by blast
    have A0: "0 \<le> A" unfolding A_def by (intro sum_nonneg) simp
    have AXY: "A \<le> X * Y" unfolding A_def X_def Y_def by (rule abs_dot_le_norms)
    have X0: "0 \<le> X" "0 \<le> Y" by (simp_all add: X_def Y_def sum_nonneg)
    have "(1 + eps) ^ (m + 1) \<le> T ^ (m + 1)"
      using eps_bounds by (intro power_mono) (simp_all add: T_def)
    then have "(1 + eps) ^ (m + 1) * A \<le> T ^ (m + 1) * A"
      using A0 by (intro mult_right_mono)
    also have "\<dots> \<le> T ^ (m + 1) * (X * Y)"
      using AXY T0 by (intro mult_left_mono) simp_all
    also have "X * Y \<le> (T ^ (m + 2) * a) * (T ^ (m + 2) * b)"
      using a(5) b(5) X0 by (intro mult_mono) (simp_all add: T0 b(2))
    then have "T ^ (m + 1) * (X * Y) \<le> T ^ (m + 1) * ((T ^ (m + 2) * a) * (T ^ (m + 2) * b))"
      using T0 by (intro mult_left_mono) simp_all
    also have "\<dots> = T ^ (3 * m + 5) * (a * b)"
    proof -
      have "3 * m + 5 = (m + 1) + ((m + 2) + (m + 2))" by simp
      then have "T ^ (3 * m + 5) = T ^ (m + 1) * (T ^ (m + 2) * T ^ (m + 2))"
        by (simp only: power_add)
      then show ?thesis by (simp only: mult_ac)
    qed
    also have "\<dots> \<le> T ^ (3 * m + 5) * (T * c)"
      using abc T0 by (intro mult_left_mono) simp_all
    also have "\<dots> = T ^ (3 * m + 6) * c"
    proof -
      have "3 * m + 6 = (3 * m + 5) + 1" by simp
      then have "T ^ (3 * m + 6) = T ^ (3 * m + 5) * T"
        by (simp only: power_add power_one_right)
      then show ?thesis by (simp only: mult_ac)
    qed
    finally have "(1 + eps) ^ (m + 1) * A \<le> T ^ (3 * m + 6) * c" .
    with du have dc: "\<bar>d\<bar> \<le> T ^ (3 * m + 6) * c" by linarith
    define q where "q = d / c"
    have "\<bar>q\<bar> = \<bar>d\<bar> / c" using c0 by (simp add: q_def)
    also have "\<dots> \<le> T ^ (3 * m + 6)"
      using dc c0 by (simp add: pos_divide_le_eq)
    finally have qb: "\<bar>q\<bar> \<le> T ^ (3 * m + 6)" .
    have "3 * m + 7 = (3 * m + 6) + 1" by simp
    then have p7: "T ^ (3 * m + 7) = T * T ^ (3 * m + 6)"
      by (simp only: power_add power_one_right mult.commute)
    have "1 * T ^ (3 * m + 6) \<le> T * T ^ (3 * m + 6)"
      using T1 T0 by (intro mult_right_mono) simp_all
    with tol(1) have K: "T ^ (3 * m + 6) \<le> 1 + tolerance m" "T * T ^ (3 * m + 6) \<le> 1 + tolerance m"
      unfolding p7 by simp_all
    have score: "cosineSim (map Fin xs) (map Fin ys) = binary64 q"
      using False a(1) b(1) c d c0 by (simp add: cosineSim_unfold q_def)
    have "\<exists>s. binary64 q = Fin s \<and> \<bar>s\<bar> \<le> 1 + tolerance m"
    proof (cases "\<bar>q\<bar> < 2 powi (- 1022)")
      case True
      from binary64_tiny [OF True] obtain s where "binary64 q = Fin s" "\<bar>s\<bar> \<le> 1"
        by blast
      moreover have "0 \<le> tolerance m" by (simp add: tolerance_def)
      ultimately show ?thesis by (intro exI [of _ s]) simp
    next
      case False
      then have q1: "2 powi (- 1022) \<le> \<bar>q\<bar>" by simp
      have "\<bar>q\<bar> \<le> 2" using qb K(1) tol(2) by linarith
      moreover have "(2::real) \<le> 2 ^ 1023" by simp
      ultimately have q2: "\<bar>q\<bar> \<le> 2 ^ 1023" by (rule order_trans)
      from binary64_relative [OF q1 q2] obtain s where
        s: "binary64 q = Fin s" and se: "\<bar>s - q\<bar> \<le> eps * \<bar>q\<bar>"
        by blast
      define G where "G = eps * \<bar>q\<bar>"
      have "\<bar>s\<bar> \<le> \<bar>q\<bar> + G" using se unfolding G_def [symmetric] by linarith
      also have "\<dots> \<le> \<bar>q\<bar> + 2 * G" using eps_bounds by (simp add: G_def)
      also have "\<dots> = T * \<bar>q\<bar>" by (simp add: T_def G_def algebra_simps)
      also have "\<dots> \<le> T * T ^ (3 * m + 6)"
        using qb T0 by (intro mult_left_mono)
      also note K(2)
      finally show ?thesis using s by blast
    qed
    with score show ?thesis by (simp add: m_def)
  qed
qed

text \<open>
  Claim C9, as amended. Take two vectors of the same dimension, of at most \<open>2 ^ 16\<close>
  finite components, each component zero or of a magnitude between \<open>2 powi (- 500)\<close>
  and \<open>2 ^ 500\<close>. The score that \<open>cosineSim\<close> computes for them in binary64 is a
  finite number, and its magnitude is at most \<open>1 + (3 n + 7) / 2 ^ 51\<close>, where
  \<open>n\<close> is the dimension.
\<close>

theorem score_within_tolerance:
  fixes xs ys :: "real list"
  assumes "length ys = length xs"
    and "\<forall>x \<in> set xs \<union> set ys. x = 0 \<or> (1 / 2 ^ 500 \<le> \<bar>x\<bar> \<and> \<bar>x\<bar> \<le> 2 ^ 500)"
    and "length xs \<le> 2 ^ 16"
  shows "\<exists>s. cosineSim (map Fin xs) (map Fin ys) = Fin s
              \<and> \<bar>s\<bar> \<le> 1 + (3 * real (length xs) + 7) / 2 ^ 51"
  using score_bound [OF assms(1) _ assms(3)] assms(2)
  unfolding moderate_def tolerance_def by blast

theorem score_within_tolerance_witness:
  "length [1, 1, 1 :: real] = length [1, 1, 1 :: real]
   \<and> list_all (\<lambda>x. x = 0 \<or> (1 / 2 ^ 500 \<le> \<bar>x\<bar> \<and> \<bar>x\<bar> \<le> 2 ^ 500))
        ([1, 1, 1] @ [1, 1, 1 :: real])
   \<and> length [1, 1, 1 :: real] \<le> 2 ^ 16
   \<and> (\<exists>s. cosineSim (map Fin [1, 1, 1]) (map Fin [1, 1, 1]) = Fin s
            \<and> \<bar>s\<bar> \<le> 1 + (3 * real (length [1, 1, 1 :: real]) + 7) / 2 ^ 51)"
proof -
  have h: "\<forall>x \<in> set [1, 1, 1] \<union> set [1, 1, 1 :: real].
             x = 0 \<or> (1 / 2 ^ 500 \<le> \<bar>x\<bar> \<and> \<bar>x\<bar> \<le> 2 ^ 500)"
    by simp
  have l: "length [1, 1, 1 :: real] = length [1, 1, 1 :: real]"
    "length [1, 1, 1 :: real] \<le> 2 ^ 16"
    by simp_all
  show ?thesis
    using h score_within_tolerance [OF l(1) h l(2)] by simp
qed

text \<open>
  The claim as written keeps every score within the interval from -1 to 1. The code
  computes in binary64, and the rounding of the square roots, of their product and of
  the quotient takes the score of a vector with itself above 1: for \<open>[1, 1, 1]\<close>
  it is \<open>1 + 2 powi (- 52)\<close>, which calls for the tolerance. With products that
  round in the subnormal range the excess is no longer small: \<open>[1]\<close> against
  \<open>[33 / 2 ^ 541]\<close> scores 1.03125, which calls for the bound on the magnitudes.
\<close>

theorem rounded_score_above_one:
  "cosineSim [Fin 1, Fin 1, Fin 1] [Fin 1, Fin 1, Fin 1]
     = Fin (4503599627370497 / 4503599627370496)
   \<and> \<not> fgeq (Fin 1) (cosineSim [Fin 1, Fin 1, Fin 1] [Fin 1, Fin 1, Fin 1])
   \<and> cosineSim [Fin 1] [Fin small] = Fin (33 / 32)
   \<and> \<not> fgeq (Fin 1) (cosineSim [Fin 1] [Fin small])"
proof -
  have "cosineSim [Fin 1] [Fin small] = Fin (33 / 32)"
    by (simp add: eval_simps small_exact small_square p2_exact sqrt_p2 p2_nonneg small_quotient)
  then show ?thesis by (simp add: self_similarity)
qed

end
